theory Spec2Isabelle
  imports
    Main
    "HOL-Library.Word"
    "HOL-Library.Multiset"
    "HOL-Library.AList"
    "HOL-Library.Char_ord"
    "HOL-Library.List_Lexorder"
begin

unbundle bit_operations_syntax

chapter \<open>EmbedTSDB: the partitioned storage core\<close>

section \<open>Data points and rows\<close>

text \<open>
  Modelled from the spec: the types \<open>DataPoint\<close>, \<open>Row\<close> and \<open>TimestampPrecision\<close> are
  declared in a file that is not among the sources at hand; the code at hand reads
  \<open>row.Metric\<close>, \<open>row.Labels\<close>, \<open>row.DataPoint\<close> and \<open>row.Timestamp\<close>, and the spec gives
  \<open>DataPoint = { timestamp: i64, value: f64 }\<close> and the four precisions.

  A timestamp is an \<open>int64\<close>.  The partition code only copies and compares timestamps and
  never computes with them, so they are modelled as integers without a bound.  A value is a
  \<open>float64\<close>, which the partition code only copies; it is modelled by its 64-bit pattern.
\<close>

record DataPoint =
  Timestamp :: int
  Value :: "64 word"

datatype TimestampPrecision = Nanoseconds | Microseconds | Milliseconds | Seconds | OtherPrecision

section \<open>Metric-name encoding (label.go)\<close>

text \<open>
  A Go \<open>string\<close> is a sequence of bytes, modelled as \<^typ>\<open>string\<close> (a list of 8-bit
  characters).  The order \<open><\<close> on Go strings is the bytewise lexicographic order, which is
  the order of \<open>HOL-Library.List_Lexorder\<close> over \<open>HOL-Library.Char_ord\<close>.
\<close>

record Label =
  Name :: string
  Value :: string

definition maxLabelNameLen :: nat where
  "maxLabelNameLen = 256"

definition maxLabelValueLen :: nat where
  "maxLabelValueLen = 16 * 1024"

text \<open>The closure \<open>invalid\<close> of \<open>marshalMetricName\<close>.\<close>

definition invalid :: "string \<Rightarrow> string \<Rightarrow> bool" where
  "invalid name value = (name = [] \<or> value = [])"

text \<open>
  Modelled from the spec: \<open>encoding.MarshalUint16\<close> lives in the package
  \<open>internal/encoding\<close>, whose source is not part of the files at hand.  The spec writes the
  length prefix as \<open>u16_be\<close>: the two bytes of the 16-bit value, most significant first,
  appended to the destination.
\<close>

definition MarshalUint16 :: "string \<Rightarrow> 16 word \<Rightarrow> string" where
  "MarshalUint16 dst u = dst @ [char_of (unat (drop_bit 8 u)), char_of (unat u)]"

text \<open>
  \<open>sort.Slice(labels, less)\<close> with \<open>less i j = labels[i].Name < labels[j].Name\<close> permutes the
  slice in place so that the names are ascending.  The Go library does not promise a stable
  sort; the model uses the insertion sort \<^const>\<open>sort_key\<close>, and the general theorems below
  about keys are stated for label lists whose labels with a non-empty name and value have
  distinct names, where every sorting algorithm puts these labels in the same order.  (A
  slice of two elements is sorted by insertion in the library too, which leaves two labels
  of one name in the order in which they came.)
\<close>

definition sortLabels :: "Label list \<Rightarrow> Label list" where
  "sortLabels labels = sort_key Name labels"

text \<open>
  The body of the first loop, for one element \<open>label := &labels[i]\<close>: the element of the
  caller's slice is overwritten through the pointer.  (The loop also adds up \<open>size\<close>, a number
  that is never read afterwards.)
\<close>

definition truncateLabel :: "Label \<Rightarrow> Label" where
  "truncateLabel label =
     (if invalid (Name label) (Value label) then label
      else
        let label1 = (if length (Name label) > maxLabelNameLen
                      then label\<lparr>Name := take maxLabelNameLen (Name label)\<rparr> else label);
            label2 = (if length (Value label1) > maxLabelValueLen
                      then label1\<lparr>Value := take maxLabelValueLen (Value label1)\<rparr> else label1)
        in label2)"

text \<open>The second loop: the labels are appended to the output buffer, invalid ones skipped.\<close>

fun marshalLabels :: "string \<Rightarrow> Label list \<Rightarrow> string" where
  "marshalLabels out [] = out"
| "marshalLabels out (label # labels) =
     (if invalid (Name label) (Value label) then marshalLabels out labels
      else
        let out1 = MarshalUint16 out (of_nat (length (Name label)));
            out2 = out1 @ Name label;
            out3 = MarshalUint16 out2 (of_nat (length (Value label)));
            out4 = out3 @ Value label
        in marshalLabels out4 labels)"

text \<open>
  \<open>marshalMetricName\<close> returns the key; since it sorts and truncates through the slice it was
  given, the model returns the contents of the caller's slice after the call as well.
\<close>

definition marshalMetricName :: "string \<Rightarrow> Label list \<Rightarrow> string \<times> Label list" where
  "marshalMetricName metric labels =
     (if length labels = 0 then (metric, labels)
      else
        let labels1 = sortLabels labels;
            labels2 = map truncateLabel labels1;
            out = MarshalUint16 [] (of_nat (length metric));
            out1 = out @ metric
        in (marshalLabels out1 labels2, labels2))"

text \<open>The key alone, as the callers use it.\<close>

definition metricKey :: "string \<Rightarrow> Label list \<Rightarrow> string" where
  "metricKey metric labels = fst (marshalMetricName metric labels)"

text \<open>Auxiliary notions used to state and prove the properties of the key.\<close>

definition validLabel :: "Label \<Rightarrow> bool" where
  "validLabel l = (\<not> invalid (Name l) (Value l))"

definition shortLabel :: "Label \<Rightarrow> bool" where
  "shortLabel l = (length (Name l) \<le> maxLabelNameLen \<and> length (Value l) \<le> maxLabelValueLen)"

text \<open>The bytes that the second loop appends for one valid label.\<close>

definition encodeLabel :: "Label \<Rightarrow> string" where
  "encodeLabel l =
     MarshalUint16 (MarshalUint16 [] (of_nat (length (Name l))) @ Name l)
       (of_nat (length (Value l))) @ Value l"

text \<open>
  The insert unit.  The field \<open>DataPoint\<close> is embedded in the Go struct, so that
  \<open>row.Timestamp\<close> is \<open>row.DataPoint.Timestamp\<close>.
\<close>

record Row =
  Metric :: string
  Labels :: "Label list"
  DataPoint :: DataPoint

abbreviation rowTimestamp :: "Row \<Rightarrow> int" where
  "rowTimestamp row \<equiv> Timestamp (DataPoint row)"

section \<open>Memory partition (memory\_partition.go)\<close>

subsection \<open>Errors, time and the write-ahead log\<close>

text \<open>
  The errors that the functions of this file return (\<open>fmt.Errorf\<close>), and the run-time panic
  of Go for an index or a slice bound out of range.
\<close>

datatype error =
    ErrNoRows
  | ErrWAL string
  | ErrPanic

text \<open>
  A \<open>time.Time\<close> is represented by its number of nanoseconds since the Unix epoch, the value
  of \<open>t.UnixNano()\<close>.  \<open>t.Unix()\<close> is the number of whole seconds since the epoch, rounded
  down.  The operator \<open>/\<close> of Go on \<open>int64\<close> truncates towards zero.
\<close>

type_synonym Time = int

definition go_div :: "int \<Rightarrow> int \<Rightarrow> int" where
  "go_div a b = sgn a * sgn b * (\<bar>a\<bar> div \<bar>b\<bar>)"

definition toUnix :: "Time \<Rightarrow> TimestampPrecision \<Rightarrow> int" where
  "toUnix t precision =
     (case precision of
        Nanoseconds \<Rightarrow> t
      | Microseconds \<Rightarrow> go_div t 1000
      | Milliseconds \<Rightarrow> go_div t 1000000
      | Seconds \<Rightarrow> t div 1000000000
      | OtherPrecision \<Rightarrow> t)"

text \<open>
  Modelled from the spec: the interface \<open>wal\<close>, its implementation \<open>nopWAL\<close> and the constant
  \<open>operationInsert\<close> are declared in a file that is not among the sources at hand.  The spec
  describes \<open>nopWAL\<close> as the no-op implementation, and \<open>append(op, rows)\<close> as an operation
  that may fail.  The state behind a real log is a value of a type \<open>'w\<close>, and its method
  \<open>append\<close> is a parameter of the model: it returns the error, if any, and the new state of
  the log.
\<close>

datatype walOperation = operationInsert

datatype 'w wal = nopWAL | fileWAL 'w

type_synonym 'w walAppend = "'w \<Rightarrow> walOperation \<Rightarrow> Row list \<Rightarrow> string option \<times> 'w"

definition wal_append ::
  "'w walAppend \<Rightarrow> 'w wal \<Rightarrow> walOperation \<Rightarrow> Row list \<Rightarrow> string option \<times> 'w wal" where
  "wal_append app w operation rows =
     (case w of
        nopWAL \<Rightarrow> (None, nopWAL)
      | fileWAL s \<Rightarrow> (case app s operation rows of (err, s') \<Rightarrow> (err, fileWAL s')))"

subsection \<open>The data of a series and of a partition\<close>

text \<open>
  \<open>memoryMetric\<close>: the slices of pointers to data points are lists of data points (a point
  is never written after it was inserted).  The counter \<open>size\<close> is an \<open>int64\<close> that is only
  ever incremented by one per inserted point; it is modelled as an integer, and so is the
  counter \<open>numPoints\<close> of the partition.  The field is called \<open>sizeM\<close> here, since \<open>size\<close> is
  a constant of the logic.
\<close>

record memoryMetric =
  name :: string
  sizeM :: int
  minTimestamp :: int
  maxTimestamp :: int
  points :: "DataPoint list"
  outOfOrderPoints :: "DataPoint list"

text \<open>
  \<open>memoryPartition\<close>: the \<open>sync.Map\<close> from metric names to series is an association list
  with \<open>Load\<close> = \<^const>\<open>map_of\<close> and \<open>Store\<close> = \<^const>\<open>AList.update\<close>; the \<open>sync.Once\<close> is
  the flag that tells whether \<open>Do\<close> has already run.  The model is sequential: one call runs
  at a time, so every atomic load and store is a plain read and write, and the locks of a
  series are not modelled.
\<close>

record 'w memoryPartition =
  numPoints :: int
  minT :: int
  maxT :: int
  metrics :: "(string \<times> memoryMetric) list"
  wal :: "'w wal"
  partitionDuration :: int
  timestampPrecision :: TimestampPrecision
  once :: bool

text \<open>
  \<open>newMemoryPartition\<close>.  A \<open>time.Duration\<close> is a number of nanoseconds.  (For \<open>Seconds\<close> the
  source converts through \<open>float64\<close>; the model takes the integer quotient.  No property
  below depends on \<open>partitionDuration\<close>.)
\<close>

definition newMemoryPartition ::
  "'w wal option \<Rightarrow> int \<Rightarrow> TimestampPrecision \<Rightarrow> 'w memoryPartition" where
  "newMemoryPartition w duration precision =
     (let w1 = (case w of None \<Rightarrow> nopWAL | Some w' \<Rightarrow> w');
          d = (case precision of
                 Nanoseconds \<Rightarrow> duration
               | Microseconds \<Rightarrow> go_div duration 1000
               | Milliseconds \<Rightarrow> go_div duration 1000000
               | Seconds \<Rightarrow> go_div duration 1000000000
               | OtherPrecision \<Rightarrow> duration)
      in \<lparr>numPoints = 0, minT = 0, maxT = 0, metrics = [], wal = w1,
          partitionDuration = d, timestampPrecision = precision, once = False\<rparr>)"

definition memoryPartition_minTimestamp :: "'w memoryPartition \<Rightarrow> int" where
  "memoryPartition_minTimestamp m = minT m"

definition memoryPartition_maxTimestamp :: "'w memoryPartition \<Rightarrow> int" where
  "memoryPartition_maxTimestamp m = maxT m"

definition memoryPartition_size :: "'w memoryPartition \<Rightarrow> int" where
  "memoryPartition_size m = numPoints m"

subsection \<open>Series: insertPoint and selectPoints\<close>

text \<open>The three statements that append a point to the ordered list (they occur twice).\<close>

definition appendInOrder :: "memoryMetric \<Rightarrow> DataPoint \<Rightarrow> memoryMetric" where
  "appendInOrder m point =
     m\<lparr>points := points m @ [point],
       maxTimestamp := Timestamp point,
       sizeM := sizeM m + 1\<rparr>"

text \<open>
  \<open>insertPoint\<close>.  The fast path returns early when the point is newer than the last
  ordered point; otherwise the slow path runs.  The read \<open>m.points[currentSize-1]\<close> of the
  slow path panics when the index is not below the length of the slice.
\<close>

definition insertPoint_fast :: "memoryMetric \<Rightarrow> DataPoint \<Rightarrow> memoryMetric option" where
  "insertPoint_fast m point =
     (if sizeM m > 0 then
        (let lastTimestamp =
               (if length (points m) > 0 then Timestamp (points m ! (length (points m) - 1)) else 0)
         in if Timestamp point > lastTimestamp then
              (if length (points m) > 0 \<and>
                  Timestamp point > Timestamp (points m ! (length (points m) - 1))
               then Some (appendInOrder m point) else None)
            else None)
      else None)"

definition insertPoint_slow :: "memoryMetric \<Rightarrow> DataPoint \<Rightarrow> error + memoryMetric" where
  "insertPoint_slow m point =
     (if sizeM m = 0 then
        Inr (m\<lparr>points := points m @ [point],
              minTimestamp := Timestamp point,
              maxTimestamp := Timestamp point,
              sizeM := sizeM m + 1\<rparr>)
      else
        (let currentSize = sizeM m in
         if currentSize > 0 \<and> length (points m) > 0 then
           (if \<not> (currentSize - 1 < int (length (points m))) then Inl ErrPanic
            else if Timestamp (points m ! nat (currentSize - 1)) < Timestamp point
            then Inr (appendInOrder m point)
            else Inr (m\<lparr>outOfOrderPoints := outOfOrderPoints m @ [point]\<rparr>))
         else Inr (m\<lparr>outOfOrderPoints := outOfOrderPoints m @ [point]\<rparr>)))"

definition insertPoint :: "memoryMetric \<Rightarrow> DataPoint \<Rightarrow> error + memoryMetric" where
  "insertPoint m point =
     (case insertPoint_fast m point of
        Some m' \<Rightarrow> Inr m'
      | None \<Rightarrow> insertPoint_slow m point)"

text \<open>
  \<open>sort.Search(n, f)\<close> of the Go library: the binary search
  \<^verbatim>\<open>i, j := 0, n; for i < j { h := int(uint(i+j) >> 1); if !f(h) { i = h + 1 } else { j = h } }; return i\<close>.
  The predicate may panic (here: by reading the slice out of range), which is the result
  \<open>None\<close>.
\<close>

function Search_loop :: "(int \<Rightarrow> bool option) \<Rightarrow> int \<Rightarrow> int \<Rightarrow> int option" where
  "Search_loop f i j =
     (if i < j then
        (let h = (i + j) div 2 in
         case f h of
           None \<Rightarrow> None
         | Some b \<Rightarrow> if \<not> b then Search_loop f (h + 1) j else Search_loop f i h)
      else Some i)"
  by pat_completeness auto
termination
  by (relation "measure (\<lambda>(f, i, j). nat (j - i))") auto

declare Search_loop.simps [simp del]

definition Search :: "int \<Rightarrow> (int \<Rightarrow> bool option) \<Rightarrow> int option" where
  "Search n f = Search_loop f 0 n"

text \<open>The read \<open>m.points[i].Timestamp\<close>, with the bounds check of Go.\<close>

definition timestampAt :: "DataPoint list \<Rightarrow> int \<Rightarrow> int option" where
  "timestampAt ps i =
     (if 0 \<le> i \<and> i < int (length ps) then Some (Timestamp (ps ! nat i)) else None)"

text \<open>
  The slice expression \<open>s[lo:hi]\<close>.  Go panics unless \<open>0 \<le> lo \<le> hi \<le> cap(s)\<close>.  The model
  does not follow capacities: it takes the length for the capacity.
\<close>

definition reslice :: "'a list \<Rightarrow> int \<Rightarrow> int \<Rightarrow> error + 'a list" where
  "reslice s lo hi =
     (if 0 \<le> lo \<and> lo \<le> hi \<and> hi \<le> int (length s)
      then Inr (take (nat hi - nat lo) (drop (nat lo) s))
      else Inl ErrPanic)"

definition selectPoints :: "memoryMetric \<Rightarrow> int \<Rightarrow> int \<Rightarrow> error + DataPoint list" where
  "selectPoints m start end =
     (let size = sizeM m;
          minTimestamp' = minTimestamp m;
          maxTimestamp' = maxTimestamp m
      in if end \<le> minTimestamp' then Inr []
         else
           (case (if start \<le> minTimestamp' then Some 0
                  else Search size
                         (\<lambda>i. map_option (\<lambda>t. t \<ge> start) (timestampAt (points m) i))) of
              None \<Rightarrow> Inl ErrPanic
            | Some startIdx \<Rightarrow>
                (case (if end > maxTimestamp' then Some size
                       else Search size
                              (\<lambda>i. map_option (\<lambda>t. t \<ge> end) (timestampAt (points m) i))) of
                   None \<Rightarrow> Inl ErrPanic
                 | Some endIdx \<Rightarrow> reslice (points m) startIdx endIdx)))"

subsection \<open>Partition: getMetric, insertRows and selectDataPoints\<close>

text \<open>
  \<open>getMetric\<close> returns the series stored under the name; if there is none it stores a new,
  empty one first.  The result is a pointer in Go; the model returns the series and the
  partition, and the callers that change the series store it back with \<open>storeMetric\<close>.
\<close>

definition newMemoryMetric :: "string \<Rightarrow> memoryMetric" where
  "newMemoryMetric nm =
     \<lparr>name = nm, sizeM = 0, minTimestamp = 0, maxTimestamp = 0, points = [],
      outOfOrderPoints = []\<rparr>"

definition storeMetric :: "'w memoryPartition \<Rightarrow> string \<Rightarrow> memoryMetric \<Rightarrow> 'w memoryPartition" where
  "storeMetric m nm v = m\<lparr>metrics := AList.update nm v (metrics m)\<rparr>"

definition getMetric :: "'w memoryPartition \<Rightarrow> string \<Rightarrow> memoryMetric \<times> 'w memoryPartition" where
  "getMetric m nm =
     (case map_of (metrics m) nm of
        Some v \<Rightarrow> (v, m)
      | None \<Rightarrow> (newMemoryMetric nm, storeMetric m nm (newMemoryMetric nm)))"

text \<open>The function given to \<open>m.once.Do\<close>: the smallest timestamp of the batch.\<close>

definition minOfRows :: "Row list \<Rightarrow> int" where
  "minOfRows rows =
     foldl (\<lambda>mn row. if rowTimestamp row < mn then rowTimestamp row else mn)
       (rowTimestamp (hd rows)) rows"

definition onceDo :: "'w memoryPartition \<Rightarrow> Row list \<Rightarrow> 'w memoryPartition" where
  "onceDo m rows = (if once m then m else m\<lparr>minT := minOfRows rows, once := True\<rparr>)"

text \<open>
  The loop over the rows.  Its state is the partition and the locals \<open>outdatedRows\<close>,
  \<open>maxTimestamp\<close> and \<open>rowsNum\<close>; \<open>clock i\<close> is what \<open>time.Now()\<close> returns when it is called
  in iteration \<open>i\<close>.  A panic of \<open>insertPoint\<close> ends the loop and the call.  (The call of
  \<open>marshalMetricName\<close> also sorts and truncates the labels of the caller's row; the rows of
  the caller are not part of the result of the model.)
\<close>

definition stampRow :: "Time \<Rightarrow> TimestampPrecision \<Rightarrow> Row \<Rightarrow> Row" where
  "stampRow now precision row =
     (if rowTimestamp row = 0
      then row\<lparr>DataPoint := (DataPoint row)\<lparr>Timestamp := toUnix now precision\<rparr>\<rparr>
      else row)"

fun insertRowsLoop ::
  "(nat \<Rightarrow> Time) \<Rightarrow> nat \<Rightarrow> Row list \<Rightarrow> 'w memoryPartition \<times> Row list \<times> int \<times> int \<Rightarrow>
   error option \<times> ('w memoryPartition \<times> Row list \<times> int \<times> int)" where
  "insertRowsLoop clock i [] st = (None, st)"
| "insertRowsLoop clock i (row # rows) (m, outdatedRows, maxTs, rowsNum) =
     (if rowTimestamp row < memoryPartition_minTimestamp m
      then insertRowsLoop clock (Suc i) rows (m, outdatedRows @ [row], maxTs, rowsNum)
      else
        (let row1 = stampRow (clock i) (timestampPrecision m) row;
             maxTs1 = (if rowTimestamp row1 > maxTs then rowTimestamp row1 else maxTs);
             nm = fst (marshalMetricName (Metric row1) (Labels row1));
             (mt, m1) = getMetric m nm
         in case insertPoint mt (DataPoint row1) of
              Inl err \<Rightarrow> (Some err, (m1, outdatedRows, maxTs1, rowsNum))
            | Inr mt1 \<Rightarrow>
                insertRowsLoop clock (Suc i) rows
                  (storeMetric m1 nm mt1, outdatedRows, maxTs1, rowsNum + 1)))"

text \<open>
  \<open>insertRows\<close> returns its result (the outdated rows, or an error) together with the
  partition after the call.
\<close>

definition insertRows ::
  "'w walAppend \<Rightarrow> (nat \<Rightarrow> Time) \<Rightarrow> 'w memoryPartition \<Rightarrow> Row list \<Rightarrow>
   (error + Row list) \<times> 'w memoryPartition" where
  "insertRows app clock m rows =
     (if length rows = 0 then (Inl ErrNoRows, m)
      else
        (case wal_append app (wal m) operationInsert rows of
           (Some err, w) \<Rightarrow> (Inl (ErrWAL err), m\<lparr>wal := w\<rparr>)
         | (None, w) \<Rightarrow>
             (let m1 = onceDo (m\<lparr>wal := w\<rparr>) rows in
              case insertRowsLoop clock 0 rows (m1, [], rowTimestamp (hd rows), 0) of
                (Some err, (m2, outdatedRows, maxTs, rowsNum)) \<Rightarrow> (Inl err, m2)
              | (None, (m2, outdatedRows, maxTs, rowsNum)) \<Rightarrow>
                  (let m3 = m2\<lparr>numPoints := numPoints m2 + rowsNum\<rparr>;
                       m4 = (if maxT m3 < maxTs then m3\<lparr>maxT := maxTs\<rparr> else m3)
                   in (Inr outdatedRows, m4)))))"

definition selectDataPoints ::
  "'w memoryPartition \<Rightarrow> string \<Rightarrow> Label list \<Rightarrow> int \<Rightarrow> int \<Rightarrow>
   (error + DataPoint list) \<times> 'w memoryPartition" where
  "selectDataPoints m metric labels start end =
     (let nm = fst (marshalMetricName metric labels);
          (mt, m1) = getMetric m nm
      in (selectPoints mt start end, m1))"

subsection \<open>Flush: encodeAllPoints\<close>

text \<open>
  Modelled from the spec: the interface \<open>seriesEncoder\<close> is declared in a file that is not
  among the sources at hand.  Its method \<open>encodePoint\<close> is a parameter of the model: from the
  state of the encoder and a point it gives the error, if any, and the new state.
\<close>

type_synonym 'e encodePoint = "'e \<Rightarrow> DataPoint \<Rightarrow> string option \<times> 'e"

text \<open>
  \<open>sort.Slice\<close> orders the out-of-order points by timestamp, in place (see the remark at
  \<^const>\<open>sortLabels\<close>).
\<close>

definition sortPoints :: "DataPoint list \<Rightarrow> DataPoint list" where
  "sortPoints ps = sort_key Timestamp ps"

text \<open>
  The first loop, on the rest \<open>outOfOrderPoints[oi:]\<close> and the rest \<open>points[pi:]\<close>.  It ends
  with an error, or with the two rests that the second and the third loop drain.
\<close>

fun encodeMerge ::
  "'e encodePoint \<Rightarrow> 'e \<Rightarrow> DataPoint list \<Rightarrow> DataPoint list \<Rightarrow>
   string option \<times> 'e \<times> DataPoint list \<times> DataPoint list" where
  "encodeMerge enc e (ooo # ooos) (p # ps) =
     (if Timestamp ooo < Timestamp p then
        (case enc e ooo of
           (Some err, e') \<Rightarrow> (Some err, e', ooo # ooos, p # ps)
         | (None, e') \<Rightarrow> encodeMerge enc e' ooos (p # ps))
      else
        (case enc e p of
           (Some err, e') \<Rightarrow> (Some err, e', ooo # ooos, p # ps)
         | (None, e') \<Rightarrow> encodeMerge enc e' (ooo # ooos) ps))"
| "encodeMerge enc e [] ps = (None, e, [], ps)"
| "encodeMerge enc e ooos [] = (None, e, ooos, [])"

text \<open>The second and the third loop: the points of a rest are encoded one after the other.\<close>

fun encodeRest :: "'e encodePoint \<Rightarrow> 'e \<Rightarrow> DataPoint list \<Rightarrow> string option \<times> 'e" where
  "encodeRest enc e [] = (None, e)"
| "encodeRest enc e (p # ps) =
     (case enc e p of
        (Some err, e') \<Rightarrow> (Some err, e')
      | (None, e') \<Rightarrow> encodeRest enc e' ps)"

text \<open>
  \<open>encodeAllPoints\<close> returns the error (\<open>None\<close> is \<open>nil\<close>), the encoder after the call and
  the series, whose out-of-order points are now sorted.
\<close>

definition encodeAllPoints ::
  "'e encodePoint \<Rightarrow> 'e \<Rightarrow> memoryMetric \<Rightarrow> string option \<times> 'e \<times> memoryMetric" where
  "encodeAllPoints enc e m =
     (let m1 = m\<lparr>outOfOrderPoints := sortPoints (outOfOrderPoints m)\<rparr> in
      case encodeMerge enc e (outOfOrderPoints m1) (points m1) of
        (Some err, e1, ooos, ps) \<Rightarrow> (Some err, e1, m1)
      | (None, e1, ooos, ps) \<Rightarrow>
          (case encodeRest enc e1 ooos of
             (Some err, e2) \<Rightarrow> (Some err, e2, m1)
           | (None, e2) \<Rightarrow>
               (case encodeRest enc e2 ps of
                  (Some err, e3) \<Rightarrow> (Some err, e3, m1)
                | (None, e3) \<Rightarrow> (None, e3, m1))))"

text \<open>
  What it means to feed a sequence of points to the encoder: \<open>encodePoint\<close> is called on
  the points in order, up to the first error.
\<close>

fun feed :: "'e encodePoint \<Rightarrow> 'e \<Rightarrow> DataPoint list \<Rightarrow> string option \<times> 'e" where
  "feed enc e [] = (None, e)"
| "feed enc e (p # ps) =
     (case enc e p of
        (Some err, e') \<Rightarrow> (Some err, e')
      | (None, e') \<Rightarrow> feed enc e' ps)"

subsection \<open>Invariants and auxiliary notions for the memory partition\<close>

text \<open>
  The invariant of a series: \<open>size\<close> is the length of the ordered list, the ordered list
  is strictly increasing by timestamp, and \<open>minTimestamp\<close> and \<open>maxTimestamp\<close> are the
  timestamps of its first and last point (both are 0 while the list is empty).
\<close>

definition metric_ok :: "memoryMetric \<Rightarrow> bool" where
  "metric_ok mt \<longleftrightarrow>
     sizeM mt = int (length (points mt)) \<and>
     sorted_wrt (<) (map Timestamp (points mt)) \<and>
     (if points mt = [] then minTimestamp mt = 0 \<and> maxTimestamp mt = 0
      else minTimestamp mt = Timestamp (hd (points mt)) \<and>
           maxTimestamp mt = Timestamp (last (points mt)))"

text \<open>All points that a series holds, and the points held under a key of the map.\<close>

definition storedPoints :: "memoryMetric \<Rightarrow> DataPoint list" where
  "storedPoints mt = points mt @ outOfOrderPoints mt"

definition seriesPoints :: "(string \<times> memoryMetric) list \<Rightarrow> string \<Rightarrow> DataPoint multiset" where
  "seriesPoints ms k = (case map_of ms k of None \<Rightarrow> {#} | Some mt \<Rightarrow> mset (storedPoints mt))"

text \<open>The sum of the size counters of all series, and the number of out-of-order points.\<close>

definition sumSizes :: "(string \<times> memoryMetric) list \<Rightarrow> int" where
  "sumSizes ms = sum_list (map (\<lambda>kv. sizeM (snd kv)) ms)"

definition sumOutOfOrder :: "(string \<times> memoryMetric) list \<Rightarrow> int" where
  "sumOutOfOrder ms = sum_list (map (\<lambda>kv. int (length (outOfOrderPoints (snd kv)))) ms)"

definition metrics_ok :: "(string \<times> memoryMetric) list \<Rightarrow> bool" where
  "metrics_ok ms \<longleftrightarrow> distinct (map fst ms) \<and> list_all (\<lambda>kv. metric_ok (snd kv)) ms"

text \<open>
  The body of the loop of \<open>insertRows\<close> for a row that is not outdated: the point is
  inserted into the series of the key.
\<close>

definition insertAt ::
  "'w memoryPartition \<Rightarrow> string \<Rightarrow> DataPoint \<Rightarrow> error + 'w memoryPartition" where
  "insertAt m nm p =
     (let (mt, m1) = getMetric m nm in
      case insertPoint mt p of
        Inl err \<Rightarrow> Inl err
      | Inr mt1 \<Rightarrow> Inr (storeMetric m1 nm mt1))"

text \<open>
  The keys and points that the loop of \<open>insertRows\<close> inserts, in order: the rows that are
  not older than the minimal timestamp, after stamping.
\<close>

fun acceptedPoints ::
  "(nat \<Rightarrow> Time) \<Rightarrow> TimestampPrecision \<Rightarrow> int \<Rightarrow> nat \<Rightarrow> Row list \<Rightarrow> (string \<times> DataPoint) list" where
  "acceptedPoints clock precision mn i [] = []"
| "acceptedPoints clock precision mn i (row # rows) =
     (if rowTimestamp row < mn then acceptedPoints clock precision mn (Suc i) rows
      else
        (let row1 = stampRow (clock i) precision row
         in (metricKey (Metric row1) (Labels row1), DataPoint row1) #
            acceptedPoints clock precision mn (Suc i) rows))"

text \<open>The states of a partition: a step is a call of \<open>insertRows\<close> or of \<open>selectDataPoints\<close>.
  The parameter \<open>C\<close> restricts the clocks that the calls of \<open>insertRows\<close> may see.\<close>

inductive reaches ::
  "((nat \<Rightarrow> Time) \<Rightarrow> bool) \<Rightarrow> 'w memoryPartition \<Rightarrow> 'w memoryPartition \<Rightarrow> bool"
  for C :: "(nat \<Rightarrow> Time) \<Rightarrow> bool" where
  reaches_refl: "reaches C m m"
| reaches_insert:
    "reaches C m m1 \<Longrightarrow> C clock \<Longrightarrow> insertRows app clock m1 rows = (r, m2) \<Longrightarrow> reaches C m m2"
| reaches_select:
    "reaches C m m1 \<Longrightarrow> selectDataPoints m1 metric labels start end = (r, m2) \<Longrightarrow>
     reaches C m m2"

definition anyClock :: "(nat \<Rightarrow> Time) \<Rightarrow> bool" where
  "anyClock clock = True"

text \<open>A clock that never shows a time before the Unix epoch.\<close>

definition clockAfterEpoch :: "(nat \<Rightarrow> Time) \<Rightarrow> bool" where
  "clockAfterEpoch clock = (\<forall>i. 0 \<le> clock i)"

text \<open>The partitions that arise from a new partition.\<close>

inductive reachable :: "((nat \<Rightarrow> Time) \<Rightarrow> bool) \<Rightarrow> 'w memoryPartition \<Rightarrow> bool"
  for C :: "(nat \<Rightarrow> Time) \<Rightarrow> bool" where
  reachable_new: "reaches C (newMemoryPartition w d precision) m \<Longrightarrow> reachable C m"

text \<open>The invariant of a partition that the counting claims need.\<close>

definition partition_ok :: "'w memoryPartition \<Rightarrow> bool" where
  "partition_ok m \<longleftrightarrow>
     metrics_ok (metrics m) \<and>
     numPoints m = sumSizes (metrics m) + sumOutOfOrder (metrics m) \<and>
     minT m \<le> maxT m"

text \<open>No series holds a point older than the minimal timestamp of the partition, and
  before the first insert no series holds a point at all.\<close>

definition no_older_points :: "'w memoryPartition \<Rightarrow> bool" where
  "no_older_points m \<longleftrightarrow>
     (\<forall>k p. p \<in># seriesPoints (metrics m) k \<longrightarrow> once m \<and> minT m \<le> Timestamp p)"

text \<open>The value of the local \<open>maxTimestamp\<close> after the loop has inserted the given points.\<close>

definition maxStamp :: "int \<Rightarrow> (string \<times> DataPoint) list \<Rightarrow> int" where
  "maxStamp maxTs acc =
     foldl (\<lambda>a kp. if Timestamp (snd kp) > a then Timestamp (snd kp) else a) maxTs acc"

text \<open>The contribution of one series to the number of points of the partition.\<close>

definition gsize :: "string \<times> memoryMetric \<Rightarrow> int" where
  "gsize kv = sizeM (snd kv) + int (length (outOfOrderPoints (snd kv)))"

text \<open>
  The minimal timestamp that is in force during a call of \<open>insertRows\<close>: the one fixed
  by an earlier call, or else the one that this call fixes.
\<close>

definition minInForce :: "'w memoryPartition \<Rightarrow> Row list \<Rightarrow> int" where
  "minInForce m rows = (if once m then minT m else minOfRows rows)"

text \<open>
  The index at which a binary search for the timestamp \<open>x\<close> ends in an ordered list: all
  points before it are older than \<open>x\<close>, all others are not.
\<close>

definition lowerBoundAt :: "DataPoint list \<Rightarrow> int \<Rightarrow> nat \<Rightarrow> bool" where
  "lowerBoundAt ps x k \<longleftrightarrow>
     k \<le> length ps \<and>
     (\<forall>l<k. Timestamp (ps ! l) < x) \<and>
     (\<forall>l. k \<le> l \<and> l < length ps \<longrightarrow> x \<le> Timestamp (ps ! l))"

text \<open>The ordered points held under a key, and the window of a range query.\<close>

definition orderedPoints :: "'w memoryPartition \<Rightarrow> string \<Rightarrow> DataPoint list" where
  "orderedPoints m k = (case map_of (metrics m) k of None \<Rightarrow> [] | Some mt \<Rightarrow> points mt)"

definition outOfOrderPointsOf :: "'w memoryPartition \<Rightarrow> string \<Rightarrow> DataPoint list" where
  "outOfOrderPointsOf m k =
     (case map_of (metrics m) k of None \<Rightarrow> [] | Some mt \<Rightarrow> outOfOrderPoints mt)"

definition inWindow :: "int \<Rightarrow> int \<Rightarrow> DataPoint \<Rightarrow> bool" where
  "inWindow start end p \<longleftrightarrow> start \<le> Timestamp p \<and> Timestamp p < end"

text \<open>
  The order in which the three loops of \<open>encodeAllPoints\<close> visit the sorted out-of-order
  points and the ordered points.
\<close>

fun mergeOrder :: "DataPoint list \<Rightarrow> DataPoint list \<Rightarrow> DataPoint list" where
  "mergeOrder (ooo # ooos) (p # ps) =
     (if Timestamp ooo < Timestamp p then ooo # mergeOrder ooos (p # ps)
      else p # mergeOrder (ooo # ooos) ps)"
| "mergeOrder [] ps = ps"
| "mergeOrder ooos [] = ooos"

section \<open>Partition list (the linked list of partitions)\<close>

text \<open>
  The list is a chain of heap nodes.  A pointer to a node is an address or \<open>nil\<close>
  (\<open>None\<close>); the memory \<open>nodes\<close> gives the node at every address, as every non-nil pointer
  of Go points to a node.

  Modelled from the spec: the interface \<open>partition\<close> is declared in a file that is not
  among the sources at hand.  The list only calls \<open>minTimestamp()\<close> and \<open>clean()\<close> on a
  partition; the two methods are parameters of the model (\<open>minTs\<close> gives the minimal
  timestamp, \<open>cleanP\<close> the error of \<open>clean()\<close>, if any), for an arbitrary type \<open>'p\<close> of
  partitions.  The field \<open>cleanCalls\<close> records, in order, the partitions on which the list
  has called \<open>clean()\<close>.  The model is sequential, so the locks are not modelled and the
  atomic operations are plain reads and writes.  The field \<open>next\<close> of a node is called
  \<open>nextNode\<close>, since \<open>next\<close> is a keyword.
\<close>

type_synonym addr = nat

record 'p partitionNode =
  val :: 'p
  nextNode :: "addr option"

record 'p partitionListImpl =
  numPartitions :: int
  head :: "addr option"
  tail :: "addr option"
  headCache :: "addr option"
  nodes :: "addr \<Rightarrow> 'p partitionNode"
  cleanCalls :: "'p list"

datatype listError =
    ErrEmptyPartition
  | ErrNotFound
  | ErrCleanFailed string

definition samePartitions :: "('p \<Rightarrow> int) \<Rightarrow> 'p \<Rightarrow> 'p \<Rightarrow> bool" where
  "samePartitions minTs x y = (minTs x = minTs y)"

definition partitionList_size :: "'p partitionListImpl \<Rightarrow> int" where
  "partitionList_size p = numPartitions p"

definition setHead :: "'p partitionListImpl \<Rightarrow> addr option \<Rightarrow> 'p partitionListImpl" where
  "setHead p node = p\<lparr>head := node, headCache := node\<rparr>"

definition setTail :: "'p partitionListImpl \<Rightarrow> addr option \<Rightarrow> 'p partitionListImpl" where
  "setTail p node = p\<lparr>tail := node\<rparr>"

text \<open>\<open>node.setNext(n)\<close> for the node at the address \<open>a\<close>.\<close>

definition setNext :: "'p partitionListImpl \<Rightarrow> addr \<Rightarrow> addr option \<Rightarrow> 'p partitionListImpl" where
  "setNext p a n = p\<lparr>nodes := (nodes p)(a := (nodes p a)\<lparr>nextNode := n\<rparr>)\<rparr>"

text \<open>
  \<open>insert\<close> allocates a node; its address \<open>a\<close>, a fresh one, is an argument of the model.
\<close>

definition insert_partition ::
  "'p partitionListImpl \<Rightarrow> addr \<Rightarrow> 'p \<Rightarrow> 'p partitionListImpl" where
  "insert_partition p a part =
     (let p1 = p\<lparr>nodes := (nodes p)(a := \<lparr>val = part, nextNode = None\<rparr>)\<rparr>;
          p2 = (case head p1 of None \<Rightarrow> p1 | Some h \<Rightarrow> setNext p1 a (Some h));
          p3 = setHead p2 (Some a)
      in p3\<lparr>numPartitions := numPartitions p3 + 1\<rparr>)"

text \<open>
  The iterator.  Its field \<open>current\<close> points to the dummy node that \<open>newIterator\<close> makes
  (whose \<open>next\<close> is the head at that time), to a node of the list, or is \<open>nil\<close>.
\<close>

datatype cursor = AtDummy "addr option" | AtNode addr | AtNil

definition newIterator :: "'p partitionListImpl \<Rightarrow> cursor" where
  "newIterator p = AtDummy (head p)"

definition cursor_of :: "addr option \<Rightarrow> cursor" where
  "cursor_of n = (case n of None \<Rightarrow> AtNil | Some a \<Rightarrow> AtNode a)"

definition iterator_next :: "(addr \<Rightarrow> 'p partitionNode) \<Rightarrow> cursor \<Rightarrow> bool \<times> cursor" where
  "iterator_next h cur =
     (case cur of
        AtNil \<Rightarrow> (False, AtNil)
      | AtDummy n \<Rightarrow> (cursor_of n \<noteq> AtNil, cursor_of n)
      | AtNode a \<Rightarrow> (cursor_of (nextNode (h a)) \<noteq> AtNil, cursor_of (nextNode (h a))))"

definition currentNode :: "cursor \<Rightarrow> addr option" where
  "currentNode cur = (case cur of AtNode a \<Rightarrow> Some a | _ \<Rightarrow> None)"

text \<open>
  The loop of \<open>remove\<close> up to the first node whose partition is the same as the target:
  it gives \<open>prev\<close>, the node and the iterator at that node, or nothing when the iterator
  runs out.  On a chain that has a cycle the loop does not end; the result is then \<open>None\<close>.
\<close>

partial_function (option) remove_find ::
  "('p \<Rightarrow> int) \<Rightarrow> (addr \<Rightarrow> 'p partitionNode) \<Rightarrow> 'p \<Rightarrow> addr option \<Rightarrow> cursor \<Rightarrow>
   (addr option \<times> addr \<times> cursor) option option" where
  "remove_find minTs h target prev it =
     (case iterator_next h it of
        (ok, it') \<Rightarrow>
          if \<not> ok then Some None
          else
            (case currentNode it' of
               None \<Rightarrow> Some None
             | Some current \<Rightarrow>
                 if \<not> samePartitions minTs (val (h current)) target
                 then remove_find minTs h target (Some current) it'
                 else Some (Some (prev, current, it'))))"

declare remove_find.simps [code]

text \<open>
  \<open>remove\<close> returns the error (\<open>None\<close> is \<open>nil\<close>) and the list after the call; the outer
  \<open>option\<close> is \<open>None\<close> when the call does not return.
\<close>

definition remove ::
  "('p \<Rightarrow> int) \<Rightarrow> ('p \<Rightarrow> string option) \<Rightarrow> 'p partitionListImpl \<Rightarrow> 'p \<Rightarrow>
   (listError option \<times> 'p partitionListImpl) option" where
  "remove minTs cleanP p target =
     (if partitionList_size p \<le> 0 then Some (Some ErrEmptyPartition, p)
      else
        (case remove_find minTs (nodes p) target None (newIterator p) of
           None \<Rightarrow> None
         | Some None \<Rightarrow> Some (Some ErrNotFound, p)
         | Some (Some (prev, current, it)) \<Rightarrow>
             (let next = currentNode (snd (iterator_next (nodes p) it));
                  p1 = (case prev of
                          None \<Rightarrow> setHead p next
                        | Some pa \<Rightarrow>
                            (case next of
                               None \<Rightarrow> (setTail (setNext p pa None) (Some pa))\<lparr>headCache := None\<rparr>
                             | Some n \<Rightarrow> setNext p pa next));
                  p2 = p1\<lparr>numPartitions := numPartitions p1 - 1\<rparr>;
                  p3 = p2\<lparr>cleanCalls := cleanCalls p2 @ [val (nodes p2 current)]\<rparr>
              in case cleanP (val (nodes p2 current)) of
                   Some err \<Rightarrow> Some (Some (ErrCleanFailed err), p3)
                 | None \<Rightarrow> Some (None, p3))))"

text \<open>\<open>newPartitionList\<close>: the zero value of the struct, over a given memory.\<close>

definition newPartitionList :: "(addr \<Rightarrow> 'p partitionNode) \<Rightarrow> 'p partitionListImpl" where
  "newPartitionList h =
     \<lparr>numPartitions = 0, head = None, tail = None, headCache = None, nodes = h,
      cleanCalls = []\<rparr>"

subsection \<open>The chain of a list\<close>

text \<open>
  \<open>chain h p as\<close>: following the \<open>next\<close> pointers from the pointer \<open>p\<close> one passes the
  nodes at the addresses \<open>as\<close>, in this order, and then reaches \<open>nil\<close>.
\<close>

fun chain :: "(addr \<Rightarrow> 'p partitionNode) \<Rightarrow> addr option \<Rightarrow> addr list \<Rightarrow> bool" where
  "chain h p [] = (p = None)"
| "chain h p (a # as) = (p = Some a \<and> chain h (nextNode (h a)) as)"

text \<open>The partitions of a chain, in order.\<close>

definition partitionsOf :: "(addr \<Rightarrow> 'p partitionNode) \<Rightarrow> addr list \<Rightarrow> 'p list" where
  "partitionsOf h as = map (\<lambda>a. val (h a)) as"

text \<open>The pointer that the next call of \<open>iterator.next()\<close> moves to.\<close>

definition successor :: "(addr \<Rightarrow> 'p partitionNode) \<Rightarrow> cursor \<Rightarrow> addr option" where
  "successor h it =
     (case it of AtNil \<Rightarrow> None | AtDummy n \<Rightarrow> n | AtNode a \<Rightarrow> nextNode (h a))"

section \<open>Bit stream (bstream.go)\<close>

text \<open>
  A \<open>byte\<close> is an \<^typ>\<open>8 word\<close>, a \<open>uint8\<close> too, a \<open>uint64\<close> is a \<^typ>\<open>64 word\<close>.  A shift of
  Go by at least the width of the operand gives 0, as \<^const>\<open>push_bit\<close> and \<^const>\<open>drop_bit\<close>
  do on words.  An index out of range panics: the writing functions return \<open>None\<close> then.
\<close>

subsection \<open>The writer\<close>

record bstream =
  stream :: "8 word list"
  count :: "8 word"

text \<open>The zero value of the struct: a fresh stream.\<close>

definition emptyBStream :: bstream where
  "emptyBStream = \<lparr>stream = [], count = 0\<rparr>"

definition bytes :: "bstream \<Rightarrow> 8 word list" where
  "bytes b = stream b"

definition writeBit :: "bstream \<Rightarrow> bool \<Rightarrow> bstream option" where
  "writeBit b x =
     (let b1 = (if count b = 0 then b\<lparr>stream := stream b @ [0], count := 8\<rparr> else b);
          i = int (length (stream b1)) - 1
      in if x \<and> i < 0 then None
         else
           (let b2 = (if x
                      then b1\<lparr>stream := (stream b1)
                             [nat i := stream b1 ! nat i OR push_bit (unat (count b1 - 1)) 1]\<rparr>
                      else b1)
            in Some (b2\<lparr>count := count b2 - 1\<rparr>)))"

definition writeByte :: "bstream \<Rightarrow> 8 word \<Rightarrow> bstream option" where
  "writeByte b byt =
     (let b1 = (if count b = 0 then b\<lparr>stream := stream b @ [0], count := 8\<rparr> else b);
          i = int (length (stream b1)) - 1
      in if i < 0 then None
         else
           (let s1 = (stream b1)[nat i := stream b1 ! nat i OR drop_bit (unat (8 - count b1)) byt];
                s2 = s1 @ [0];
                s3 = s2[nat (i + 1) := push_bit (unat (count b1)) byt]
            in Some (b1\<lparr>stream := s3\<rparr>)))"

text \<open>The two loops of \<open>writeBits\<close>; \<open>nbits\<close> is an \<open>int\<close> of Go.\<close>

function writeBits_bytes :: "bstream \<Rightarrow> 64 word \<Rightarrow> int \<Rightarrow> (bstream \<times> 64 word \<times> int) option" where
  "writeBits_bytes b u nbits =
     (if nbits \<ge> 8
      then (case writeByte b (ucast (drop_bit 56 u)) of
              None \<Rightarrow> None
            | Some b' \<Rightarrow> writeBits_bytes b' (push_bit 8 u) (nbits - 8))
      else Some (b, u, nbits))"
  by pat_completeness auto
termination
  by (relation "measure (\<lambda>(b, u, nbits). nat nbits)") auto

function writeBits_bits :: "bstream \<Rightarrow> 64 word \<Rightarrow> int \<Rightarrow> bstream option" where
  "writeBits_bits b u nbits =
     (if nbits > 0
      then (case writeBit b (drop_bit 63 u = 1) of
              None \<Rightarrow> None
            | Some b' \<Rightarrow> writeBits_bits b' (push_bit 1 u) (nbits - 1))
      else Some b)"
  by pat_completeness auto
termination
  by (relation "measure (\<lambda>(b, u, nbits). nat nbits)") auto

declare writeBits_bytes.simps [simp del]
declare writeBits_bits.simps [simp del]

text \<open>
  \<open>64 - uint(nbits)\<close> is computed in \<open>uint\<close> (64 bits): the conversion and the subtraction
  wrap around.
\<close>

definition writeBits :: "bstream \<Rightarrow> 64 word \<Rightarrow> int \<Rightarrow> bstream option" where
  "writeBits b u nbits =
     (case writeBits_bytes b (push_bit (nat ((64 - nbits) mod 2 ^ 64)) u) nbits of
        None \<Rightarrow> None
      | Some (b', u', nbits') \<Rightarrow> writeBits_bits b' u' nbits')"

subsection \<open>The reader\<close>

text \<open>
  The field \<open>streamOffset\<close>, an \<open>int\<close> of Go, starts at 0 and only grows by the number of
  bytes loaded, up to the length of the stream; it is a natural number here.
\<close>

record bstreamReader =
  stream :: "8 word list"
  streamOffset :: nat
  buffer :: "64 word"
  valid :: "8 word"

datatype ioError = EOF

definition newBReader :: "8 word list \<Rightarrow> bstreamReader" where
  "newBReader b = \<lparr>stream = b, streamOffset = 0, buffer = 0, valid = 0\<rparr>"

text \<open>
  \<open>binary.BigEndian.Uint64\<close> of the standard library reads the first eight bytes of a slice,
  the most significant one first.  Its caller has checked that the slice is longer.
\<close>

definition BigEndian_Uint64 :: "8 word list \<Rightarrow> 64 word" where
  "BigEndian_Uint64 b =
     ucast (b ! 7) OR push_bit 8 (ucast (b ! 6)) OR push_bit 16 (ucast (b ! 5)) OR
     push_bit 24 (ucast (b ! 4)) OR push_bit 32 (ucast (b ! 3)) OR push_bit 40 (ucast (b ! 2)) OR
     push_bit 48 (ucast (b ! 1)) OR push_bit 56 (ucast (b ! 0))"

definition loadNextBuffer :: "bstreamReader \<Rightarrow> 8 word \<Rightarrow> bool \<times> bstreamReader" where
  "loadNextBuffer b nbits =
     (if streamOffset b \<ge> length (stream b) then (False, b)
      else if streamOffset b + 8 < length (stream b)
      then (True, b\<lparr>buffer := BigEndian_Uint64 (drop (streamOffset b) (stream b)),
                    streamOffset := streamOffset b + 8,
                    valid := 64\<rparr>)
      else
        (let nbytes0 = unat (nbits div 8 + 1);
             nbytes = (if streamOffset b + nbytes0 > length (stream b)
                       then length (stream b) - streamOffset b else nbytes0);
             buf = foldl (\<lambda>buf i. buf OR push_bit (8 * (nbytes - i - 1))
                                        (ucast (stream b ! (streamOffset b + i))))
                     0 [0..<nbytes]
         in (True, b\<lparr>buffer := buf,
                      streamOffset := streamOffset b + nbytes,
                      valid := of_nat (nbytes * 8)\<rparr>)))"

definition readBitsFast :: "bstreamReader \<Rightarrow> 8 word \<Rightarrow> (ioError + 64 word) \<times> bstreamReader" where
  "readBitsFast b nbits =
     (if nbits > valid b then (Inl EOF, b)
      else
        (let bitmask = push_bit (unat nbits) 1 - 1;
             b' = b\<lparr>valid := valid b - nbits\<rparr>
         in (Inr (drop_bit (unat (valid b')) (buffer b') AND bitmask), b')))"

definition readBits :: "bstreamReader \<Rightarrow> 8 word \<Rightarrow> (ioError + 64 word) \<times> bstreamReader" where
  "readBits b nbits =
     (let (loaded, b1) = (if valid b = 0 then loadNextBuffer b nbits else (True, b))
      in if \<not> loaded then (Inl EOF, b1)
         else if nbits \<le> valid b1 then readBitsFast b1 nbits
         else
           (let bitmask = push_bit (unat (valid b1)) 1 - 1;
                nbits' = nbits - valid b1;
                v = push_bit (unat nbits') (buffer b1 AND bitmask);
                (loaded', b2) = loadNextBuffer (b1\<lparr>valid := 0\<rparr>) nbits'
            in if \<not> loaded' then (Inl EOF, b2)
               else
                 (let bitmask' = push_bit (unat nbits') 1 - 1;
                      v' = v OR (drop_bit (unat (valid b2 - nbits')) (buffer b2) AND bitmask')
                  in (Inr v', b2\<lparr>valid := valid b2 - nbits'\<rparr>))))"

subsection \<open>Writing and reading a sequence\<close>

text \<open>
  One call of \<open>writeBits\<close> for every pair of a value and a width, in order; one call of
  \<open>readBits\<close> for every width, in order, up to the first error.
\<close>

fun writeSeq :: "bstream \<Rightarrow> (64 word \<times> nat) list \<Rightarrow> bstream option" where
  "writeSeq b [] = Some b"
| "writeSeq b ((u, n) # ws) =
     (case writeBits b u (int n) of None \<Rightarrow> None | Some b' \<Rightarrow> writeSeq b' ws)"

fun readSeq :: "bstreamReader \<Rightarrow> nat list \<Rightarrow> ioError + 64 word list" where
  "readSeq b [] = Inr []"
| "readSeq b (n # ns) =
     (case readBits b (of_nat n) of
        (Inl e, b') \<Rightarrow> Inl e
      | (Inr v, b') \<Rightarrow> (case readSeq b' ns of Inl e \<Rightarrow> Inl e | Inr vs \<Rightarrow> Inr (v # vs)))"

text \<open>
  The value of a sequence of bytes read as one big-endian number, and the value of the
  \<open>n\<close> bits that start at bit \<open>p\<close> (counted from the first bit) of a number of \<open>l\<close> bits.
\<close>

fun sval :: "8 word list \<Rightarrow> nat" where
  "sval [] = 0"
| "sval (x # xs) = unat x * 2 ^ (8 * length xs) + sval xs"

definition peek :: "nat \<Rightarrow> nat \<Rightarrow> nat \<Rightarrow> nat \<Rightarrow> nat" where
  "peek s l p n = (s div 2 ^ (l - p - n)) mod 2 ^ n"

text \<open>
  \<open>written b w t\<close>: the stream of the writer holds the \<open>t\<close> bits of the number \<open>w\<close>, followed
  by the \<open>count\<close> bits of its last byte that are still free, all zero.
\<close>

definition written :: "bstream \<Rightarrow> nat \<Rightarrow> nat \<Rightarrow> bool" where
  "written b w t \<longleftrightarrow>
     unat (count b) \<le> 8 \<and>
     8 * length (bstream.stream b) = t + unat (count b) \<and>
     sval (bstream.stream b) = w * 2 ^ unat (count b)"

text \<open>
  \<open>encodes s l p ws\<close>: in a number \<open>s\<close> of \<open>l\<close> bits the values of \<open>ws\<close> stand one after the
  other, each in its width, from the bit \<open>p\<close> on.
\<close>

fun encodes :: "nat \<Rightarrow> nat \<Rightarrow> nat \<Rightarrow> (64 word \<times> nat) list \<Rightarrow> bool" where
  "encodes s l p [] = True"
| "encodes s l p ((u, n) # ws) =
     (p + n \<le> l \<and> peek s l p n = unat u \<and> encodes s l (p + n) ws)"

text \<open>
  \<open>reading b bs p\<close>: the reader is over the bytes \<open>bs\<close>, it has consumed their first \<open>p\<close>
  bits, and the \<open>valid\<close> low bits of its buffer are the bits of \<open>bs\<close> before the offset.
\<close>

definition reading :: "bstreamReader \<Rightarrow> 8 word list \<Rightarrow> nat \<Rightarrow> bool" where
  "reading b bs p \<longleftrightarrow>
     stream b = bs \<and> streamOffset b \<le> length bs \<and> unat (valid b) \<le> 64 \<and>
     p + unat (valid b) = 8 * streamOffset b \<and>
     take_bit (unat (valid b)) (unat (buffer b)) =
       peek (sval bs) (8 * length bs) p (unat (valid b))"

chapter \<open>Verification\<close>

section \<open>Properties of the metric-name encoding\<close>

lemma truncateLabel_valid:
  "\<not> invalid (Name l) (Value l) \<Longrightarrow>
   truncateLabel l = l\<lparr>Name := take maxLabelNameLen (Name l), Value := take maxLabelValueLen (Value l)\<rparr>"
  by (simp add: truncateLabel_def Let_def)

lemma truncateLabel_invalid:
  "invalid (Name l) (Value l) \<Longrightarrow> truncateLabel l = l"
  by (simp add: truncateLabel_def)

lemma mset_sortLabels: "mset (sortLabels ls) = mset ls"
  by (simp add: sortLabels_def)

lemma sorted_sortLabels: "sorted (map Name (sortLabels ls))"
  by (simp add: sortLabels_def)

lemma marshalLabels_eq:
  "marshalLabels out ls = out @ concat (map encodeLabel (filter validLabel ls))"
  by (induction ls arbitrary: out) (simp_all add: Let_def encodeLabel_def MarshalUint16_def validLabel_def)

lemma MarshalUint16_inj:
  "MarshalUint16 [] u = MarshalUint16 [] v \<Longrightarrow> u = v"
proof -
  assume a: "MarshalUint16 [] u = MarshalUint16 [] v"
  have "char_of (unat (drop_bit 8 u)) = char_of (unat (drop_bit 8 v))"
    and "char_of (unat u) = char_of (unat v)"
    using a by (simp_all add: MarshalUint16_def)
  then have "(of_char (char_of (unat (drop_bit 8 u))) :: nat) = of_char (char_of (unat (drop_bit 8 v)))"
    and "(of_char (char_of (unat u)) :: nat) = of_char (char_of (unat v))"
    by simp_all
  then have 1: "take_bit 8 (unat (drop_bit 8 u)) = take_bit 8 (unat (drop_bit 8 v))"
    and 2: "take_bit 8 (unat u) = take_bit 8 (unat v)"
    by (simp_all add: take_bit_eq_mod)
  show "u = v"
  proof (rule bit_eqI)
    fix n
    assume "possible_bit TYPE(16 word) n"
    then have n: "n < 16" by simp
    show "bit u n = bit v n"
    proof (cases "n < 8")
      case True
      have "bit (take_bit 8 (unat u)) n = bit (take_bit 8 (unat v)) n" using 2 by simp
      then show ?thesis using True by (simp add: bit_take_bit_iff bit_unsigned_iff)
    next
      case False
      have "bit (take_bit 8 (unat (drop_bit 8 u))) (n - 8) = bit (take_bit 8 (unat (drop_bit 8 v))) (n - 8)" using 1 by simp
      then show ?thesis using False n by (auto simp add: bit_take_bit_iff bit_unsigned_iff bit_drop_bit_eq)
    qed
  qed
qed

lemma length_MarshalUint16: "length (MarshalUint16 [] u) = 2"
  by (simp add: MarshalUint16_def)

lemma of_nat_u16_inj:
  "a < 65536 \<Longrightarrow> b < 65536 \<Longrightarrow> (of_nat a :: 16 word) = of_nat b \<Longrightarrow> a = b"
proof -
  assume a: "a < 65536" and b: "b < 65536" and eq: "(of_nat a :: 16 word) = of_nat b"
  have "unat (of_nat a :: 16 word) = unat (of_nat b :: 16 word)" using eq by simp
  then have "a mod 65536 = b mod 65536" by (simp add: unat_of_nat)
  then show "a = b" using a b by simp
qed

lemma prefix_decode:
  assumes "length s < 65536" "length t < 65536"
    and "MarshalUint16 [] (of_nat (length s)) @ s @ r = MarshalUint16 [] (of_nat (length t)) @ t @ r'"
  shows "s = t \<and> r = r'"
proof -
  have "MarshalUint16 [] (of_nat (length s)) = MarshalUint16 [] (of_nat (length t)) \<and> s @ r = t @ r'"
    using assms(3) by (simp add: length_MarshalUint16)
  then have "length s = length t" and "s @ r = t @ r'"
    using MarshalUint16_inj of_nat_u16_inj assms(1,2) by blast+
  then show ?thesis by simp
qed

lemma length_encodeLabel: "length (encodeLabel l) \<ge> 4"
  by (simp add: encodeLabel_def MarshalUint16_def)

lemma encodeLabel_eq:
  "encodeLabel l = MarshalUint16 [] (of_nat (length (Name l))) @ Name l @
     (MarshalUint16 [] (of_nat (length (Value l))) @ Value l @ [])"
  by (simp add: encodeLabel_def MarshalUint16_def)

lemma encodeLabel_decode:
  assumes "length (Name x) < 65536" "length (Value x) < 65536"
    "length (Name y) < 65536" "length (Value y) < 65536"
    and "encodeLabel x @ r = encodeLabel y @ r'"
  shows "x = y \<and> r = r'"
proof -
  have e: "MarshalUint16 [] (of_nat (length (Name x))) @ Name x @
        (MarshalUint16 [] (of_nat (length (Value x))) @ Value x @ r)
      = MarshalUint16 [] (of_nat (length (Name y))) @ Name y @
        (MarshalUint16 [] (of_nat (length (Value y))) @ Value y @ r')"
    using assms(5) by (simp add: encodeLabel_eq)
  from prefix_decode [OF assms(1) assms(3) e]
  have n: "Name x = Name y"
    and e2: "MarshalUint16 [] (of_nat (length (Value x))) @ Value x @ r
      = MarshalUint16 [] (of_nat (length (Value y))) @ Value y @ r'"
    by simp_all
  from prefix_decode [OF assms(2) assms(4) e2]
  have "Value x = Value y" and "r = r'" by simp_all
  with n show ?thesis by simp
qed

lemma encodeLabels_inj:
  assumes "\<forall>l\<in>set xs. shortLabel l" "\<forall>l\<in>set ys. shortLabel l"
    and "concat (map encodeLabel xs) = concat (map encodeLabel ys)"
  shows "xs = ys"
  using assms
proof (induction xs arbitrary: ys)
  case Nil
  show ?case
  proof (cases ys)
    case Nil then show ?thesis by simp
  next
    case (Cons y ys')
    with Nil.prems(3) have "encodeLabel y = []" by simp
    then show ?thesis using length_encodeLabel [of y] by simp
  qed
next
  case (Cons x xs)
  show ?case
  proof (cases ys)
    case Nil
    with Cons.prems(3) have "encodeLabel x = []" by simp
    then show ?thesis using length_encodeLabel [of x] by simp
  next
    case (Cons y ys')
    have sx: "length (Name x) < 65536" "length (Value x) < 65536"
      using Cons.prems(1) by (simp_all add: shortLabel_def maxLabelNameLen_def maxLabelValueLen_def)
    have sy: "length (Name y) < 65536" "length (Value y) < 65536"
      using Cons.prems(2) Cons by (simp_all add: shortLabel_def maxLabelNameLen_def maxLabelValueLen_def)
    have "encodeLabel x @ concat (map encodeLabel xs) = encodeLabel y @ concat (map encodeLabel ys')"
      using Cons.prems(3) Cons by simp
    from encodeLabel_decode [OF sx sy this]
    have "x = y" and "concat (map encodeLabel xs) = concat (map encodeLabel ys')" by simp_all
    moreover have "xs = ys'"
      using Cons.IH [of ys'] Cons.prems(1,2) Cons calculation(2) by simp
    ultimately show ?thesis using Cons by simp
  qed
qed

lemma truncateLabel_short: "shortLabel l \<Longrightarrow> truncateLabel l = l"
  by (simp add: truncateLabel_def shortLabel_def Let_def)

lemma map_truncateLabel_short:
  "\<forall>l\<in>set xs. shortLabel l \<Longrightarrow> map truncateLabel xs = xs"
  by (induction xs) (simp_all add: truncateLabel_short)

lemma validLabel_truncateLabel: "validLabel (truncateLabel l) = validLabel l"
  by (auto simp add: truncateLabel_def validLabel_def invalid_def Let_def maxLabelNameLen_def maxLabelValueLen_def)

lemma metricKey_nonempty:
  "labels \<noteq> [] \<Longrightarrow>
   metricKey metric labels =
     MarshalUint16 [] (of_nat (length metric)) @ metric @
     concat (map encodeLabel (filter validLabel (map truncateLabel (sortLabels labels))))"
  by (simp add: metricKey_def marshalMetricName_def Let_def marshalLabels_eq)

lemma sortLabels_unique:
  assumes "mset xs = mset ys" "distinct (map Name ys)"
  shows "sortLabels xs = sortLabels ys"
proof -
  have "inj_on Name (set ys)" using assms(2) by (simp add: distinct_map)
  then have "inj_on Name (set xs)" using assms(1) by (metis mset_eq_setD)
  then show ?thesis
    unfolding sortLabels_def using assms(1) by (rule sort_key_eq_sort_key [rotated])
qed

lemma filter_valid_truncate:
  "filter validLabel (map truncateLabel xs) = map truncateLabel (filter validLabel xs)"
  by (induction xs) (simp_all add: validLabel_truncateLabel)

lemma metricKey_valid_labels:
  assumes "labels \<noteq> []"
  shows "metricKey metric labels =
     MarshalUint16 [] (of_nat (length metric)) @ metric @
     concat (map encodeLabel (map truncateLabel (sortLabels (filter validLabel labels))))"
  using assms
  by (simp add: metricKey_nonempty filter_valid_truncate sortLabels_def filter_sort)

lemma metricKey_empty: "metricKey metric [] = metric"
  by (simp add: metricKey_def marshalMetricName_def)


lemma same_labels_same_key:
  assumes "(L1 = []) = (L2 = [])"
    and "distinct (map Name (filter validLabel L1))" "distinct (map Name (filter validLabel L2))"
    and "{l \<in> set L1. validLabel l} = {l \<in> set L2. validLabel l}"
  shows "metricKey m L1 = metricKey m L2"
proof (cases "L1 = []")
  case True
  then show ?thesis using assms(1) by simp
next
  case False
  let ?xs = "filter validLabel L1" and ?ys = "filter validLabel L2"
  have d: "distinct ?xs" "distinct ?ys" using assms(2,3) by (simp_all add: distinct_map)
  have "set ?xs = set ?ys" using assms(4) by simp
  then have "mset ?xs = mset ?ys"
    by (rule iffD1 [OF set_eq_iff_mset_eq_distinct [OF d]])
  then have "sortLabels ?xs = sortLabels ?ys" using assms(3) by (rule sortLabels_unique)
  then show ?thesis using False assms(1) by (simp add: metricKey_valid_labels)
qed

lemma same_key_same_labels:
  assumes e: "(L1 = []) = (L2 = [])"
    and len: "L1 \<noteq> [] \<longrightarrow> length m1 < 65536 \<and> length m2 < 65536"
    and short: "\<forall>l\<in>set L1 \<union> set L2. validLabel l \<longrightarrow> shortLabel l"
    and eq: "metricKey m1 L1 = metricKey m2 L2"
  shows "m1 = m2 \<and> {l \<in> set L1. validLabel l} = {l \<in> set L2. validLabel l}"
proof (cases "L1 = []")
  case True
  then show ?thesis using e eq by (simp add: metricKey_empty)
next
  case False
  let ?xs = "sortLabels (filter validLabel L1)" and ?ys = "sortLabels (filter validLabel L2)"
  have s1: "\<forall>l\<in>set ?xs. shortLabel l" and s2: "\<forall>l\<in>set ?ys. shortLabel l"
    using short by (simp_all add: sortLabels_def)
  have t1: "map truncateLabel ?xs = ?xs" using s1 by (rule map_truncateLabel_short)
  have t2: "map truncateLabel ?ys = ?ys" using s2 by (rule map_truncateLabel_short)
  have ne: "L2 \<noteq> []" using False e by simp
  have "MarshalUint16 [] (of_nat (length m1)) @ m1 @ concat (map encodeLabel ?xs)
      = MarshalUint16 [] (of_nat (length m2)) @ m2 @ concat (map encodeLabel ?ys)"
    using eq unfolding metricKey_valid_labels [OF False] metricKey_valid_labels [OF ne] t1 t2 .
  moreover have "length m1 < 65536" "length m2 < 65536" using len False by simp_all
  ultimately have m: "m1 = m2"
    and c: "concat (map encodeLabel ?xs) = concat (map encodeLabel ?ys)"
    using prefix_decode by blast+
  have "?xs = ?ys" using s1 s2 c by (rule encodeLabels_inj)
  then have "set ?xs = set ?ys" by simp
  then have "{l \<in> set L1. validLabel l} = {l \<in> set L2. validLabel l}"
    by (simp add: sortLabels_def)
  with m show ?thesis by simp
qed

lemma valid_permutation:
  assumes "mset L' = mset L" "distinct (map Name (filter validLabel L))"
  shows "metricKey m L' = metricKey m L"
proof -
  have 1: "(L' = []) = (L = [])" using assms(1) by (metis mset_zero_iff)
  have "mset (map Name (filter validLabel L')) = mset (map Name (filter validLabel L))"
    using assms(1) by simp
  then have 2: "distinct (map Name (filter validLabel L'))"
    using assms(2) by (metis mset_eq_imp_distinct_iff)
  have 3: "{l \<in> set L'. validLabel l} = {l \<in> set L. validLabel l}"
    using assms(1) by (metis mset_eq_setD)
  show ?thesis using 1 2 assms(2) 3 by (rule same_labels_same_key)
qed

lemma metricKey_single:
  assumes "\<not> invalid n v"
  shows "metricKey m [\<lparr>Name = n, Value = v\<rparr>] =
     MarshalUint16 [] (of_nat (length m)) @ m @
     encodeLabel \<lparr>Name = take maxLabelNameLen n, Value = take maxLabelValueLen v\<rparr>"
  using assms
  by (simp add: metricKey_valid_labels validLabel_def sortLabels_def truncateLabel_valid)

lemma metricKey_long_metric:
  assumes "length v = 16379"
  defines "ls \<equiv> [\<lparr>Name = ''a'', Value = v\<rparr>, \<lparr>Name = ''b'', Value = v\<rparr>,
                  \<lparr>Name = ''c'', Value = v\<rparr>, \<lparr>Name = ''d'', Value = v\<rparr>]"
  shows "metricKey ''m'' ls =
         metricKey (''m'' @ concat (map encodeLabel ls)) [\<lparr>Name = '''', Value = ''''\<rparr>] \<and>
         length (''m'' @ concat (map encodeLabel ls)) = 65537"
proof -
  have v: "v \<noteq> []" using assms(1) by auto
  have val: "filter validLabel ls = ls"
    using v by (simp add: ls_def validLabel_def invalid_def)
  have "sorted (map Name ls)" by (simp add: ls_def)
  then have srt: "sortLabels ls = ls"
    unfolding sortLabels_def by (rule sort_key_id_if_sorted)
  have "\<forall>l\<in>set ls. shortLabel l"
    using assms(1) by (simp add: ls_def shortLabel_def maxLabelNameLen_def maxLabelValueLen_def)
  then have tr: "map truncateLabel ls = ls" by (rule map_truncateLabel_short)
  have len: "length (concat (map encodeLabel ls)) = 65536"
    using assms(1) by (simp add: ls_def encodeLabel_def MarshalUint16_def)
  have w: "(of_nat (length (''m'' @ concat (map encodeLabel ls))) :: 16 word) = of_nat (length ''m'')"
    by (simp add: len)
  have inv: "filter validLabel [\<lparr>Name = '''', Value = ''''\<rparr>] = []"
    by (simp add: validLabel_def invalid_def)
  have ne: "ls \<noteq> []" by (simp add: ls_def)
  have 1: "metricKey ''m'' ls =
      MarshalUint16 [] (of_nat (length ''m'')) @ ''m'' @ concat (map encodeLabel ls)"
    unfolding metricKey_valid_labels [OF ne] val srt tr ..
  have "metricKey (''m'' @ concat (map encodeLabel ls)) [\<lparr>Name = '''', Value = ''''\<rparr>] =
        MarshalUint16 [] (of_nat (length (''m'' @ concat (map encodeLabel ls)))) @
        (''m'' @ concat (map encodeLabel ls)) @
        concat (map encodeLabel (map truncateLabel (sortLabels
          (filter validLabel [\<lparr>Name = '''', Value = ''''\<rparr>]))))"
    by (rule metricKey_valid_labels) simp
  then have 2: "metricKey (''m'' @ concat (map encodeLabel ls)) [\<lparr>Name = '''', Value = ''''\<rparr>] =
      MarshalUint16 [] (of_nat (length ''m'')) @ ''m'' @ concat (map encodeLabel ls)"
    unfolding w inv by (simp add: sortLabels_def)
  show ?thesis using 1 2 len by simp
qed

lemma metricKey_two:
  assumes "Name x \<le> Name y" "validLabel x" "validLabel y" "shortLabel x" "shortLabel y"
  shows "metricKey m [x, y] =
     MarshalUint16 [] (of_nat (length m)) @ m @ encodeLabel x @ encodeLabel y"
  using assms
  by (simp add: metricKey_valid_labels sortLabels_def truncateLabel_short)

lemma metricKey_one:
  assumes "validLabel x" "shortLabel x"
  shows "metricKey m [x] = MarshalUint16 [] (of_nat (length m)) @ m @ encodeLabel x"
  using assms
  by (simp add: metricKey_valid_labels sortLabels_def truncateLabel_short)

lemma marshalMetricName_invalid_single:
  "invalid (Name l) (Value l) \<Longrightarrow> snd (marshalMetricName m [l]) = [l]"
  by (simp add: marshalMetricName_def sortLabels_def truncateLabel_def)

text \<open>
  Claim C1 (MetricKey identity), as the code has it.  A label is valid when its name and its
  value are non-empty; the invalid ones are dropped from the key.

  \<^item> If the valid labels of a list have pairwise distinct names, every permutation of the list
    gives the same key.
  \<^item> If two lists are both empty or both non-empty and the valid labels of each have pairwise
    distinct names, the same metric with the same set of valid labels gives the same key.
  \<^item> If two lists are both empty or both non-empty, the metric names are shorter than \<open>2^16\<close>
    bytes (as far as the lists are non-empty) and no valid label has a name or a value longer
    than its maximal length, then equal keys come from the same metric and the same set of
    valid labels.
\<close>

theorem metricKey_identity:
  "(distinct (map Name (filter (\<lambda>l. \<not> invalid (Name l) (Value l)) L1)) \<longrightarrow>
      (\<forall>L'. mset L' = mset L1 \<longrightarrow> metricKey m1 L' = metricKey m1 L1)) \<and>
   ((L1 = []) = (L2 = []) \<and>
    distinct (map Name (filter (\<lambda>l. \<not> invalid (Name l) (Value l)) L1)) \<and>
    distinct (map Name (filter (\<lambda>l. \<not> invalid (Name l) (Value l)) L2)) \<and>
    m1 = m2 \<and>
    {l \<in> set L1. \<not> invalid (Name l) (Value l)} = {l \<in> set L2. \<not> invalid (Name l) (Value l)} \<longrightarrow>
      metricKey m1 L1 = metricKey m2 L2) \<and>
   ((L1 = []) = (L2 = []) \<and>
    (L1 \<noteq> [] \<longrightarrow> length m1 < 65536 \<and> length m2 < 65536) \<and>
    (\<forall>l\<in>set L1 \<union> set L2. \<not> invalid (Name l) (Value l) \<longrightarrow>
        length (Name l) \<le> maxLabelNameLen \<and> length (Value l) \<le> maxLabelValueLen) \<and>
    metricKey m1 L1 = metricKey m2 L2 \<longrightarrow>
      m1 = m2 \<and>
      {l \<in> set L1. \<not> invalid (Name l) (Value l)} = {l \<in> set L2. \<not> invalid (Name l) (Value l)})"
proof -
  have v: "(\<lambda>l. \<not> invalid (Name l) (Value l)) = validLabel"
    by (rule ext) (simp add: validLabel_def)
  have s: "(\<not> invalid (Name l) (Value l)) = validLabel l" for l
    by (simp add: validLabel_def)
  show ?thesis
    unfolding v s
  proof (intro conjI impI allI)
    fix L'
    assume "distinct (map Name (filter validLabel L1))" "mset L' = mset L1"
    then show "metricKey m1 L' = metricKey m1 L1" by (intro valid_permutation)
  next
    assume a: "(L1 = []) = (L2 = []) \<and>
      distinct (map Name (filter validLabel L1)) \<and>
      distinct (map Name (filter validLabel L2)) \<and>
      m1 = m2 \<and> {l \<in> set L1. validLabel l} = {l \<in> set L2. validLabel l}"
    then have "metricKey m1 L1 = metricKey m1 L2"
      by (intro same_labels_same_key) (simp_all only:)
    then show "metricKey m1 L1 = metricKey m2 L2" using a by (simp only:)
  next
    assume a: "(L1 = []) = (L2 = []) \<and>
      (L1 \<noteq> [] \<longrightarrow> length m1 < 65536 \<and> length m2 < 65536) \<and>
      (\<forall>l\<in>set L1 \<union> set L2. validLabel l \<longrightarrow>
          length (Name l) \<le> maxLabelNameLen \<and> length (Value l) \<le> maxLabelValueLen) \<and>
      metricKey m1 L1 = metricKey m2 L2"
    then have sh: "\<forall>l\<in>set L1 \<union> set L2. validLabel l \<longrightarrow> shortLabel l"
      unfolding shortLabel_def by simp
    have e: "(L1 = []) = (L2 = [])"
      and n: "L1 \<noteq> [] \<longrightarrow> length m1 < 65536 \<and> length m2 < 65536"
      and k: "metricKey m1 L1 = metricKey m2 L2"
      using a by simp_all
    from e n sh k
    have r: "m1 = m2 \<and> {l \<in> set L1. validLabel l} = {l \<in> set L2. validLabel l}"
      by (rule same_key_same_labels)
    from r show "m1 = m2" by (rule conjunct1)
    from r show "{l \<in> set L1. validLabel l} = {l \<in> set L2. validLabel l}" by (rule conjunct2)
  qed
qed

theorem metricKey_identity_witness:
  "metricKey ''m'' [\<lparr>Name = ''b'', Value = ''2''\<rparr>, \<lparr>Name = ''a'', Value = ''1''\<rparr>] =
   metricKey ''m'' [\<lparr>Name = ''a'', Value = ''1''\<rparr>, \<lparr>Name = ''b'', Value = ''2''\<rparr>] \<and>
   metricKey ''m'' [\<lparr>Name = ''a'', Value = ''1''\<rparr>, \<lparr>Name = ''b'', Value = ''2''\<rparr>] =
   metricKey ''m'' [\<lparr>Name = ''b'', Value = ''2''\<rparr>, \<lparr>Name = ''c'', Value = ''''\<rparr>,
                    \<lparr>Name = ''a'', Value = ''1''\<rparr>] \<and>
   metricKey ''m'' [\<lparr>Name = ''a'', Value = ''1''\<rparr>, \<lparr>Name = ''b'', Value = ''2''\<rparr>] \<noteq>
   metricKey ''q'' [\<lparr>Name = ''b'', Value = ''2''\<rparr>, \<lparr>Name = ''a'', Value = ''1''\<rparr>]"
proof -
  let ?a = "\<lparr>Name = ''a'', Value = ''1''\<rparr>" and ?b = "\<lparr>Name = ''b'', Value = ''2''\<rparr>"
  let ?c = "\<lparr>Name = ''c'', Value = ''''\<rparr>"
  let ?v = "\<lambda>l. \<not> invalid (Name l) (Value l)"
  have fa: "filter ?v [?a, ?b] = [?a, ?b]" and fb: "filter ?v [?b, ?a] = [?b, ?a]"
    and fc: "filter ?v [?b, ?c, ?a] = [?b, ?a]"
    by (simp_all add: invalid_def)
  have da: "distinct (map Name (filter ?v [?a, ?b]))" unfolding fa by simp
  have db: "distinct (map Name (filter ?v [?b, ?a]))" unfolding fb by simp
  have dc: "distinct (map Name (filter ?v [?b, ?c, ?a]))" unfolding fc by simp
  have sa: "{l \<in> set [?a, ?b]. ?v l} = set (filter ?v [?a, ?b])"
    and sb: "{l \<in> set [?b, ?a]. ?v l} = set (filter ?v [?b, ?a])"
    and sc: "{l \<in> set [?b, ?c, ?a]. ?v l} = set (filter ?v [?b, ?c, ?a])"
    by (simp_all only: set_filter)
  have sac: "{l \<in> set [?a, ?b]. ?v l} = {l \<in> set [?b, ?c, ?a]. ?v l}"
    unfolding sa sc fa fc by (simp add: insert_commute)
  have "mset [?b, ?a] = mset [?a, ?b]" by simp
  with da have 1: "metricKey ''m'' [?b, ?a] = metricKey ''m'' [?a, ?b]"
    using metricKey_identity [of "[?a, ?b]" "''m''" "[?b, ?a]" "''m''", THEN conjunct1]
    by blast
  have e2: "([?a, ?b] = []) = ([?b, ?c, ?a] = [])" by simp
  have 2: "metricKey ''m'' [?a, ?b] = metricKey ''m'' [?b, ?c, ?a]"
    using metricKey_identity [of "[?a, ?b]" "''m''" "[?b, ?c, ?a]" "''m''",
        THEN conjunct2, THEN conjunct1] e2 da dc sac
    by blast
  have e3: "([?a, ?b] = []) = ([?b, ?a] = [])" by simp
  have l3: "[?a, ?b] \<noteq> [] \<longrightarrow> length ''m'' < 65536 \<and> length ''q'' < 65536" by simp
  have s3: "\<forall>l\<in>set [?a, ?b] \<union> set [?b, ?a]. ?v l \<longrightarrow>
        length (Name l) \<le> maxLabelNameLen \<and> length (Value l) \<le> maxLabelValueLen"
    by (simp add: maxLabelNameLen_def maxLabelValueLen_def)
  have "metricKey ''m'' [?a, ?b] = metricKey ''q'' [?b, ?a] \<longrightarrow> ''m'' = ''q''"
    using metricKey_identity [of "[?a, ?b]" "''m''" "[?b, ?a]" "''q''",
        THEN conjunct2, THEN conjunct2] e3 l3 s3
    by blast
  then have 3: "metricKey ''m'' [?a, ?b] \<noteq> metricKey ''q'' [?b, ?a]" by auto
  from 1 2 3 show ?thesis by (intro conjI)
qed

text \<open>
  The claim as stated fails, and each condition above is needed.

  \<^item> An empty label list is answered with the bare metric name, without the length prefix:
    the same metric with the same (empty) set of valid labels has two keys, and two different
    metrics share one key.
  \<^item> Valid labels of one name: a label that stands twice in a list is written twice, and two
    labels of one name are written in the order in which they came (the sort compares the
    names only and does not move two elements that it finds in order).
  \<^item> A name of 257 bytes and a value of 16385 bytes are cut to 256 and to 16384 bytes, so two
    different labels give one key.
  \<^item> A metric name of 65537 bytes has the length prefix of a name of one byte: the metric
    that is \<open>m\<close> followed by the encoding of four labels, given with one invalid label, has
    the key of the metric \<open>m\<close> with these four labels.
\<close>

theorem metricKey_identity_counterexample:
  "metricKey ''m'' [] \<noteq> metricKey ''m'' [\<lparr>Name = '''', Value = ''''\<rparr>] \<and>
   [CHR 0x00, CHR 0x01, CHR ''m''] \<noteq> ''m'' \<and>
   metricKey [CHR 0x00, CHR 0x01, CHR ''m''] [] = metricKey ''m'' [\<lparr>Name = '''', Value = ''x''\<rparr>] \<and>
   metricKey ''m'' [\<lparr>Name = ''a'', Value = ''1''\<rparr>, \<lparr>Name = ''a'', Value = ''1''\<rparr>] \<noteq>
   metricKey ''m'' [\<lparr>Name = ''a'', Value = ''1''\<rparr>] \<and>
   metricKey ''m'' [\<lparr>Name = ''a'', Value = ''1''\<rparr>, \<lparr>Name = ''a'', Value = ''2''\<rparr>] \<noteq>
   metricKey ''m'' [\<lparr>Name = ''a'', Value = ''2''\<rparr>, \<lparr>Name = ''a'', Value = ''1''\<rparr>] \<and>
   metricKey ''m'' [\<lparr>Name = replicate 257 CHR ''n'', Value = ''v''\<rparr>] =
   metricKey ''m'' [\<lparr>Name = replicate 256 CHR ''n'', Value = ''v''\<rparr>] \<and>
   metricKey ''m'' [\<lparr>Name = ''n'', Value = replicate 16385 CHR ''v''\<rparr>] =
   metricKey ''m'' [\<lparr>Name = ''n'', Value = replicate 16384 CHR ''v''\<rparr>] \<and>
   metricKey ''m''
     [\<lparr>Name = ''a'', Value = replicate 16379 CHR ''v''\<rparr>,
      \<lparr>Name = ''b'', Value = replicate 16379 CHR ''v''\<rparr>,
      \<lparr>Name = ''c'', Value = replicate 16379 CHR ''v''\<rparr>,
      \<lparr>Name = ''d'', Value = replicate 16379 CHR ''v''\<rparr>] =
   metricKey
     (''m'' @ concat (map encodeLabel
        [\<lparr>Name = ''a'', Value = replicate 16379 CHR ''v''\<rparr>,
         \<lparr>Name = ''b'', Value = replicate 16379 CHR ''v''\<rparr>,
         \<lparr>Name = ''c'', Value = replicate 16379 CHR ''v''\<rparr>,
         \<lparr>Name = ''d'', Value = replicate 16379 CHR ''v''\<rparr>]))
     [\<lparr>Name = '''', Value = ''''\<rparr>] \<and>
   length (''m'' @ concat (map encodeLabel
        [\<lparr>Name = ''a'', Value = replicate 16379 CHR ''v''\<rparr>,
         \<lparr>Name = ''b'', Value = replicate 16379 CHR ''v''\<rparr>,
         \<lparr>Name = ''c'', Value = replicate 16379 CHR ''v''\<rparr>,
         \<lparr>Name = ''d'', Value = replicate 16379 CHR ''v''\<rparr>])) = 65537"
proof -
  have 1: "metricKey ''m'' [] \<noteq> metricKey ''m'' [\<lparr>Name = '''', Value = ''''\<rparr>]"
    by code_simp
  have 2: "[CHR 0x00, CHR 0x01, CHR ''m''] \<noteq> ''m''" by simp
  have 3: "metricKey [CHR 0x00, CHR 0x01, CHR ''m''] [] =
      metricKey ''m'' [\<lparr>Name = '''', Value = ''x''\<rparr>]"
    by code_simp
  let ?a = "\<lparr>Name = ''a'', Value = ''1''\<rparr>" and ?b = "\<lparr>Name = ''a'', Value = ''2''\<rparr>"
  have v: "validLabel ?a" "validLabel ?b" by (simp_all add: validLabel_def invalid_def)
  have s: "shortLabel ?a" "shortLabel ?b"
    by (simp_all add: shortLabel_def maxLabelNameLen_def maxLabelValueLen_def)
  have n: "Name ?a \<le> Name ?b" "Name ?b \<le> Name ?a" by simp_all
  have "encodeLabel ?a \<noteq> []" using length_encodeLabel [of ?a] by auto
  then have 4: "metricKey ''m'' [?a, ?a] \<noteq> metricKey ''m'' [?a]"
    by (simp only: metricKey_two [OF order_refl v(1) v(1) s(1) s(1)]
          metricKey_one [OF v(1) s(1)]) simp
  have "encodeLabel ?a @ encodeLabel ?b \<noteq> encodeLabel ?b @ encodeLabel ?a"
  proof
    assume "encodeLabel ?a @ encodeLabel ?b = encodeLabel ?b @ encodeLabel ?a"
    then have "?a = ?b" by (intro encodeLabel_decode [THEN conjunct1]) simp_all
    then show False by simp
  qed
  then have 5: "metricKey ''m'' [?a, ?b] \<noteq> metricKey ''m'' [?b, ?a]"
    by (simp only: metricKey_two [OF n(1) v s] metricKey_two [OF n(2) v(2,1) s(2,1)]) simp
  have 6: "metricKey ''m'' [\<lparr>Name = replicate 257 CHR ''n'', Value = ''v''\<rparr>] =
      metricKey ''m'' [\<lparr>Name = replicate 256 CHR ''n'', Value = ''v''\<rparr>]"
    by (simp add: metricKey_single invalid_def maxLabelNameLen_def maxLabelValueLen_def)
  have 7: "metricKey ''m'' [\<lparr>Name = ''n'', Value = replicate 16385 CHR ''v''\<rparr>] =
      metricKey ''m'' [\<lparr>Name = ''n'', Value = replicate 16384 CHR ''v''\<rparr>]"
    by (simp add: metricKey_single invalid_def maxLabelNameLen_def maxLabelValueLen_def)
  have "length (replicate 16379 CHR ''v'') = 16379" by (rule length_replicate)
  note 8 = metricKey_long_metric [OF this]
  show ?thesis
    by (rule conjI [OF 1 conjI [OF 2 conjI [OF 3 conjI [OF 4 conjI [OF 5 conjI [OF 6 conjI [OF 7 8]]]]]]])
qed

text \<open>
  Claim C10 (in-place mutation of the labels), as the code has it.  After the call the
  caller's slice holds a permutation of the labels it held before, the one sorted by name,
  in which every label with a non-empty name and a non-empty value has its name cut to 256
  bytes and its value to 16384 bytes; a label with an empty name or an empty value is moved
  by the sort but never truncated.
\<close>

theorem marshalMetricName_mutates_labels:
  "\<exists>sorted_labels.
      mset sorted_labels = mset labels \<and> sorted (map Name sorted_labels) \<and>
      snd (marshalMetricName metric labels) =
        map (\<lambda>l. if Name l = [] \<or> Value l = [] then l
                 else l\<lparr>Name := take 256 (Name l), Value := take 16384 (Value l)\<rparr>)
            sorted_labels"
proof (cases "labels = []")
  case True
  then show ?thesis by (simp add: marshalMetricName_def)
next
  case False
  have "truncateLabel l = (if Name l = [] \<or> Value l = [] then l
                 else l\<lparr>Name := take 256 (Name l), Value := take 16384 (Value l)\<rparr>)" for l
    by (simp add: truncateLabel_def invalid_def Let_def maxLabelNameLen_def maxLabelValueLen_def)
  then have "truncateLabel = (\<lambda>l. if Name l = [] \<or> Value l = [] then l
                 else l\<lparr>Name := take 256 (Name l), Value := take 16384 (Value l)\<rparr>)"
    by (rule ext)
  moreover have "snd (marshalMetricName metric labels) = map truncateLabel (sortLabels labels)"
    using False by (simp add: marshalMetricName_def Let_def)
  ultimately have "snd (marshalMetricName metric labels) =
        map (\<lambda>l. if Name l = [] \<or> Value l = [] then l
                 else l\<lparr>Name := take 256 (Name l), Value := take 16384 (Value l)\<rparr>)
            (sortLabels labels)"
    by (simp only:)
  with mset_sortLabels [of labels] sorted_sortLabels [of labels] show ?thesis
    by (intro exI [of _ "sortLabels labels"] conjI)
qed

theorem marshalMetricName_mutates_labels_witness:
  "snd (marshalMetricName ''m'' [\<lparr>Name = ''b'', Value = ''2''\<rparr>, \<lparr>Name = ''a'', Value = ''1''\<rparr>]) =
     [\<lparr>Name = ''a'', Value = ''1''\<rparr>, \<lparr>Name = ''b'', Value = ''2''\<rparr>]"
proof -
  have e: "snd (marshalMetricName ''m'' [\<lparr>Name = ''b'', Value = ''2''\<rparr>, \<lparr>Name = ''a'', Value = ''1''\<rparr>]) =
     [\<lparr>Name = ''a'', Value = ''1''\<rparr>, \<lparr>Name = ''b'', Value = ''2''\<rparr>]"
    by (simp add: marshalMetricName_def sortLabels_def truncateLabel_def invalid_def
        maxLabelNameLen_def maxLabelValueLen_def)
  obtain ss where "mset ss = mset [\<lparr>Name = ''b'', Value = ''2''\<rparr>, \<lparr>Name = ''a'', Value = ''1''\<rparr>]"
    and "snd (marshalMetricName ''m'' [\<lparr>Name = ''b'', Value = ''2''\<rparr>, \<lparr>Name = ''a'', Value = ''1''\<rparr>]) =
        map (\<lambda>l. if Name l = [] \<or> Value l = [] then l
                 else l\<lparr>Name := take 256 (Name l), Value := take 16384 (Value l)\<rparr>) ss"
    using marshalMetricName_mutates_labels
      [of "[\<lparr>Name = ''b'', Value = ''2''\<rparr>, \<lparr>Name = ''a'', Value = ''1''\<rparr>]" "''m''"]
    by blast
  with e show ?thesis by (simp only:)
qed

text \<open>
  The claim as stated fails for a label that the code treats as invalid: a name of 257 bytes
  next to an empty value is skipped by the loop and stays 257 bytes long in the caller's slice.
\<close>

theorem marshalMetricName_mutates_labels_counterexample:
  "snd (marshalMetricName ''m'' [\<lparr>Name = replicate 257 CHR ''n'', Value = ''''\<rparr>]) =
     [\<lparr>Name = replicate 257 CHR ''n'', Value = ''''\<rparr>] \<and>
   length (Name (hd (snd (marshalMetricName ''m''
      [\<lparr>Name = replicate 257 CHR ''n'', Value = ''''\<rparr>])))) > maxLabelNameLen"
proof -
  have "invalid (Name \<lparr>Name = replicate 257 CHR ''n'', Value = ''''\<rparr>) (Value \<lparr>Name = replicate 257 CHR ''n'', Value = ''''\<rparr>)"
    by (simp only: invalid_def Label.simps simp_thms)
  then have "snd (marshalMetricName ''m'' [\<lparr>Name = replicate 257 CHR ''n'', Value = ''''\<rparr>]) =
     [\<lparr>Name = replicate 257 CHR ''n'', Value = ''''\<rparr>]"
    by (rule marshalMetricName_invalid_single)
  then show ?thesis
    by (simp only: list.sel Label.simps length_replicate maxLabelNameLen_def) simp
qed
section \<open>Properties of the memory partition\<close>

subsection \<open>Inserting a point into a series\<close>

lemma insertPoint_ok:
  assumes "metric_ok mt"
  shows "insertPoint mt p = Inr
     (if points mt = [] then
        mt\<lparr>points := points mt @ [p], minTimestamp := Timestamp p, maxTimestamp := Timestamp p,
           sizeM := sizeM mt + 1\<rparr>
      else if Timestamp (last (points mt)) < Timestamp p then appendInOrder mt p
      else mt\<lparr>outOfOrderPoints := outOfOrderPoints mt @ [p]\<rparr>)"
proof (cases "points mt = []")
  case True
  with assms show ?thesis
    by (simp add: metric_ok_def insertPoint_def insertPoint_fast_def insertPoint_slow_def)
next
  case False
  then have len: "0 < length (points mt)" by simp
  have sz: "sizeM mt = int (length (points mt))" using assms by (simp add: metric_ok_def)
  have lst: "points mt ! (length (points mt) - 1) = last (points mt)"
    using False by (simp add: last_conv_nth)
  have lst2: "points mt ! nat (sizeM mt - 1) = last (points mt)"
    using False sz by (simp add: last_conv_nth nat_diff_distrib')
  show ?thesis
  proof (cases "Timestamp (last (points mt)) < Timestamp p")
    case True
    then show ?thesis using False len sz lst
      by (simp add: insertPoint_def insertPoint_fast_def)
  next
    case ooo: False
    then have "insertPoint_fast mt p = None"
      using False len sz lst by (simp add: insertPoint_fast_def)
    then show ?thesis using False len sz lst2 ooo
      by (simp add: insertPoint_def insertPoint_slow_def)
  qed
qed

lemma strict_sorted_below_last:
  assumes "sorted_wrt (<) xs" "xs \<noteq> []" "last xs < (t::int)"
  shows "\<forall>x\<in>set xs. x < t"
proof -
  have "sorted_wrt (<) (butlast xs @ [last xs])" using assms(1,2) by simp
  then have "\<forall>x\<in>set (butlast xs). x < last xs" by (simp add: sorted_wrt_append)
  moreover have "set xs = insert (last xs) (set (butlast xs))"
    using assms(2) by (metis append_butlast_last_id list.set(1,2) Un_insert_right set_append sup_bot.right_neutral)
  ultimately show ?thesis using assms(3) by auto
qed

lemma metric_ok_insertPoint:
  assumes "metric_ok mt" "insertPoint mt p = Inr mt'"
  shows "metric_ok mt'"
proof -
  consider (first) "points mt = []"
    | (inorder) "points mt \<noteq> []" "Timestamp (last (points mt)) < Timestamp p"
    | (ooo) "points mt \<noteq> []" "\<not> Timestamp (last (points mt)) < Timestamp p"
    by blast
  then show ?thesis
  proof cases
    case first
    then show ?thesis using assms insertPoint_ok [OF assms(1), of p]
      by (auto simp add: metric_ok_def)
  next
    case inorder
    have "\<forall>t\<in>set (map Timestamp (points mt)). t < Timestamp p"
      by (rule strict_sorted_below_last)
        (use assms(1) inorder in \<open>simp_all add: metric_ok_def last_map\<close>)
    then show ?thesis using inorder assms insertPoint_ok [OF assms(1), of p]
      by (auto simp add: metric_ok_def appendInOrder_def sorted_wrt_append)
  next
    case ooo
    then show ?thesis using assms insertPoint_ok [OF assms(1), of p]
      by (auto simp add: metric_ok_def)
  qed
qed

lemma insertPoint_stored:
  assumes "metric_ok mt" "insertPoint mt p = Inr mt'"
  shows "mset (storedPoints mt') = mset (storedPoints mt) + {#p#}"
    and "sizeM mt' + int (length (outOfOrderPoints mt')) =
         sizeM mt + int (length (outOfOrderPoints mt)) + 1"
    and "name mt' = name mt"
  using assms insertPoint_ok [OF assms(1), of p]
  by (auto simp add: storedPoints_def appendInOrder_def split: if_splits)

subsection \<open>The map of series\<close>

lemma sum_list_update_None:
  fixes f :: "'k \<times> 'v \<Rightarrow> int"
  shows "map_of al k = None \<Longrightarrow>
    sum_list (map f (AList.update k v al)) = sum_list (map f al) + f (k, v)"
  by (induction al) (auto split: if_splits)

lemma sum_list_update_Some:
  fixes f :: "'k \<times> 'v \<Rightarrow> int"
  shows "distinct (map fst al) \<Longrightarrow> map_of al k = Some v0 \<Longrightarrow>
    sum_list (map f (AList.update k v al)) = sum_list (map f al) - f (k, v0) + f (k, v)"
proof (induction al)
  case Nil
  then show ?case by simp
next
  case (Cons a al)
  show ?case
  proof (cases "fst a = k")
    case True
    then have "a = (k, v0)" using Cons.prems(2) by (cases a) simp
    then show ?thesis by simp
  next
    case False
    then show ?thesis using Cons by (cases a) simp
  qed
qed

lemma list_all_update:
  "list_all P al \<Longrightarrow> P (k, v) \<Longrightarrow> list_all P (AList.update k v al)"
  by (induction al) auto

lemma map_of_list_all:
  "list_all P al \<Longrightarrow> map_of al k = Some v \<Longrightarrow> P (k, v)"
  by (induction al) (auto split: if_splits)

lemma sum_gsize: "sum_list (map gsize ms) = sumSizes ms + sumOutOfOrder ms"
  by (induction ms) (simp_all add: gsize_def sumSizes_def sumOutOfOrder_def)

lemma metric_ok_new: "metric_ok (newMemoryMetric k)"
  by (simp add: metric_ok_def newMemoryMetric_def)

lemma getMetric_ok:
  assumes "metrics_ok (metrics m)" "getMetric m k = (mt, m1)"
  shows "metrics_ok (metrics m1)"
    and "map_of (metrics m1) k = Some mt"
    and "metric_ok mt"
    and "m1 = m\<lparr>metrics := metrics m1\<rparr>"
    and "sumSizes (metrics m1) + sumOutOfOrder (metrics m1) =
         sumSizes (metrics m) + sumOutOfOrder (metrics m)"
    and "seriesPoints (metrics m1) = seriesPoints (metrics m)"
proof -
  have d: "distinct (map fst (metrics m))" and a: "list_all (\<lambda>kv. metric_ok (snd kv)) (metrics m)"
    using assms(1) by (simp_all add: metrics_ok_def)
  show "metrics_ok (metrics m1)"
    using assms(2) d a
    by (auto simp add: getMetric_def storeMetric_def metrics_ok_def distinct_update
        list_all_update metric_ok_new split: option.splits)
  show "map_of (metrics m1) k = Some mt"
    using assms(2)
    by (auto simp add: getMetric_def storeMetric_def update_conv' split: option.splits)
  show "metric_ok mt"
    using assms(2) map_of_list_all [OF a]
    by (auto simp add: getMetric_def metric_ok_new split: option.splits)
  show "m1 = m\<lparr>metrics := metrics m1\<rparr>"
    using assms(2) by (auto simp add: getMetric_def storeMetric_def split: option.splits)
  show "sumSizes (metrics m1) + sumOutOfOrder (metrics m1) =
         sumSizes (metrics m) + sumOutOfOrder (metrics m)"
  proof (cases "map_of (metrics m) k")
    case None
    then have "metrics m1 = AList.update k (newMemoryMetric k) (metrics m)"
      using assms(2) by (auto simp add: getMetric_def storeMetric_def)
    then show ?thesis
      using sum_list_update_None [OF None, of gsize "newMemoryMetric k"]
      by (simp add: sum_gsize [symmetric]) (simp add: gsize_def newMemoryMetric_def)
  next
    case (Some v)
    then show ?thesis using assms(2) by (auto simp add: getMetric_def)
  qed
  show "seriesPoints (metrics m1) = seriesPoints (metrics m)"
  proof (cases "map_of (metrics m) k")
    case None
    then have "metrics m1 = AList.update k (newMemoryMetric k) (metrics m)"
      using assms(2) by (auto simp add: getMetric_def storeMetric_def)
    then have "seriesPoints (metrics m1) k' = seriesPoints (metrics m) k'" for k'
      using None
      by (cases "k' = k")
        (simp_all add: seriesPoints_def update_conv' newMemoryMetric_def storedPoints_def)
    then show ?thesis by (rule ext)
  next
    case (Some v)
    then show ?thesis using assms(2) by (auto simp add: getMetric_def)
  qed
qed

lemma metrics_update_twice:
  "m1 = m\<lparr>metrics := a\<rparr> \<Longrightarrow> m1\<lparr>metrics := b\<rparr> = m\<lparr>metrics := b\<rparr>"
  by simp

lemma insertAt_ok:
  assumes "metrics_ok (metrics m)"
  shows "\<exists>m'. insertAt m k p = Inr m' \<and> metrics_ok (metrics m') \<and>
           m' = m\<lparr>metrics := metrics m'\<rparr> \<and>
           sumSizes (metrics m') + sumOutOfOrder (metrics m') =
             sumSizes (metrics m) + sumOutOfOrder (metrics m) + 1 \<and>
           (\<forall>k'. seriesPoints (metrics m') k' =
                 seriesPoints (metrics m) k' + (if k' = k then {#p#} else {#}))"
proof -
  obtain mt m1 where g: "getMetric m k = (mt, m1)" by (cases "getMetric m k")
  note G = getMetric_ok [OF assms g]
  obtain mt1 where ip: "insertPoint mt p = Inr mt1"
    using insertPoint_ok [OF G(3)] by blast
  have ok1: "metric_ok mt1" using G(3) ip by (rule metric_ok_insertPoint)
  note S = insertPoint_stored [OF G(3) ip]
  let ?m' = "storeMetric m1 k mt1"
  have d: "distinct (map fst (metrics m1))"
    and a: "list_all (\<lambda>kv. metric_ok (snd kv)) (metrics m1)"
    using G(1) by (simp_all add: metrics_ok_def)
  have 1: "insertAt m k p = Inr ?m'" using g ip by (simp add: insertAt_def)
  have 2: "metrics_ok (metrics ?m')"
    using d a ok1 by (simp add: storeMetric_def metrics_ok_def distinct_update list_all_update)
  have 3: "?m' = m\<lparr>metrics := metrics ?m'\<rparr>"
    using metrics_update_twice [OF G(4)] by (simp add: storeMetric_def)
  have "sum_list (map gsize (metrics ?m')) = sum_list (map gsize (metrics m1)) - gsize (k, mt) + gsize (k, mt1)"
    using sum_list_update_Some [OF d G(2), of gsize mt1] by (simp add: storeMetric_def)
  then have 4: "sumSizes (metrics ?m') + sumOutOfOrder (metrics ?m') =
             sumSizes (metrics m) + sumOutOfOrder (metrics m) + 1"
    using S(2) G(5) by (simp add: sum_gsize gsize_def)
  have 5: "seriesPoints (metrics ?m') k' =
                 seriesPoints (metrics m) k' + (if k' = k then {#p#} else {#})" for k'
  proof -
    have "seriesPoints (metrics ?m') k' =
                 seriesPoints (metrics m1) k' + (if k' = k then {#p#} else {#})"
      using G(2) S(1)
      by (cases "k' = k") (simp_all add: seriesPoints_def storeMetric_def update_conv')
    then show ?thesis by (simp only: G(6))
  qed
  from 1 2 3 4 5 show ?thesis by blast
qed

subsection \<open>The loop of insertRows\<close>

lemma insertRowsLoop_outdated:
  "rowTimestamp row < minT m \<Longrightarrow>
   insertRowsLoop clock i (row # rows) (m, out, maxTs, n) =
   insertRowsLoop clock (Suc i) rows (m, out @ [row], maxTs, n)"
  by (simp add: memoryPartition_minTimestamp_def)

lemma insertRowsLoop_accepted:
  assumes "\<not> rowTimestamp row < minT m"
    and "insertAt m (metricKey (Metric (stampRow (clock i) (timestampPrecision m) row))
                     (Labels (stampRow (clock i) (timestampPrecision m) row)))
            (DataPoint (stampRow (clock i) (timestampPrecision m) row)) = Inr m1"
  shows "insertRowsLoop clock i (row # rows) (m, out, maxTs, n) =
     insertRowsLoop clock (Suc i) rows
       (m1, out,
        (if rowTimestamp (stampRow (clock i) (timestampPrecision m) row) > maxTs
         then rowTimestamp (stampRow (clock i) (timestampPrecision m) row) else maxTs),
        n + 1)"
  using assms
  by (auto simp add: memoryPartition_minTimestamp_def insertAt_def metricKey_def Let_def
      split: prod.splits sum.splits)

lemma insertRowsLoop_ok:
  assumes "metrics_ok (metrics m)"
  shows "\<exists>m'. insertRowsLoop clock i rows (m, out, maxTs, n) =
           (None, (m', out @ filter (\<lambda>r. rowTimestamp r < minT m) rows,
                   maxStamp maxTs (acceptedPoints clock (timestampPrecision m) (minT m) i rows),
                   n + int (length (acceptedPoints clock (timestampPrecision m) (minT m) i rows))))
         \<and> metrics_ok (metrics m') \<and> m' = m\<lparr>metrics := metrics m'\<rparr>
         \<and> sumSizes (metrics m') + sumOutOfOrder (metrics m') =
             sumSizes (metrics m) + sumOutOfOrder (metrics m) +
             int (length (acceptedPoints clock (timestampPrecision m) (minT m) i rows))
         \<and> (\<forall>k. seriesPoints (metrics m') k =
                seriesPoints (metrics m) k +
                mset (map snd (filter (\<lambda>kp. fst kp = k)
                  (acceptedPoints clock (timestampPrecision m) (minT m) i rows))))"
  using assms
proof (induction rows arbitrary: i m out maxTs n)
  case Nil
  show ?case
    by (rule exI [of _ m]) (simp add: Nil maxStamp_def)
next
  case (Cons row rows)
  show ?case
  proof (cases "rowTimestamp row < minT m")
    case True
    from Cons.IH [OF Cons.prems, of i' "out @ [row]" maxTs n for i']
    obtain m' where m':
      "insertRowsLoop clock (Suc i) rows (m, out @ [row], maxTs, n) =
           (None, (m', (out @ [row]) @ filter (\<lambda>r. rowTimestamp r < minT m) rows,
                   maxStamp maxTs (acceptedPoints clock (timestampPrecision m) (minT m) (Suc i) rows),
                   n + int (length (acceptedPoints clock (timestampPrecision m) (minT m) (Suc i) rows))))"
      "metrics_ok (metrics m')" "m' = m\<lparr>metrics := metrics m'\<rparr>"
      "sumSizes (metrics m') + sumOutOfOrder (metrics m') =
             sumSizes (metrics m) + sumOutOfOrder (metrics m) +
             int (length (acceptedPoints clock (timestampPrecision m) (minT m) (Suc i) rows))"
      "\<forall>k. seriesPoints (metrics m') k =
                seriesPoints (metrics m) k +
                mset (map snd (filter (\<lambda>kp. fst kp = k)
                  (acceptedPoints clock (timestampPrecision m) (minT m) (Suc i) rows)))"
      by blast
    show ?thesis
      apply (rule exI [of _ m'])
      using m' True by (simp only: insertRowsLoop_outdated [OF True]) simp
  next
    case False
    define row1 where "row1 = stampRow (clock i) (timestampPrecision m) row"
    define k1 where "k1 = metricKey (Metric row1) (Labels row1)"
    define maxTs1 where "maxTs1 = (if rowTimestamp row1 > maxTs then rowTimestamp row1 else maxTs)"
    obtain m1 where m1: "insertAt m k1 (DataPoint row1) = Inr m1"
      "metrics_ok (metrics m1)" "m1 = m\<lparr>metrics := metrics m1\<rparr>"
      "sumSizes (metrics m1) + sumOutOfOrder (metrics m1) =
             sumSizes (metrics m) + sumOutOfOrder (metrics m) + 1"
      "\<forall>k'. seriesPoints (metrics m1) k' =
                 seriesPoints (metrics m) k' + (if k' = k1 then {#DataPoint row1#} else {#})"
      using insertAt_ok [OF Cons.prems, of k1 "DataPoint row1"] by blast
    have same: "minT m1 = minT m" "timestampPrecision m1 = timestampPrecision m"
      by (subst m1(3), simp)+
    have step: "insertRowsLoop clock i (row # rows) (m, out, maxTs, n) =
        insertRowsLoop clock (Suc i) rows (m1, out, maxTs1, n + 1)"
      using insertRowsLoop_accepted [OF False, of clock i m1 rows out maxTs n] m1(1)
      by (simp add: row1_def k1_def maxTs1_def)
    have acc: "acceptedPoints clock (timestampPrecision m) (minT m) i (row # rows) =
        (k1, DataPoint row1) # acceptedPoints clock (timestampPrecision m) (minT m) (Suc i) rows"
      using False by (simp add: row1_def k1_def Let_def)
    from Cons.IH [OF m1(2), of "Suc i" out maxTs1 "n + 1"]
    obtain m' where m':
      "insertRowsLoop clock (Suc i) rows (m1, out, maxTs1, n + 1) =
           (None, (m', out @ filter (\<lambda>r. rowTimestamp r < minT m) rows,
                   maxStamp maxTs1 (acceptedPoints clock (timestampPrecision m) (minT m) (Suc i) rows),
                   n + 1 + int (length (acceptedPoints clock (timestampPrecision m) (minT m) (Suc i) rows))))"
      "metrics_ok (metrics m')" "m' = m1\<lparr>metrics := metrics m'\<rparr>"
      "sumSizes (metrics m') + sumOutOfOrder (metrics m') =
             sumSizes (metrics m1) + sumOutOfOrder (metrics m1) +
             int (length (acceptedPoints clock (timestampPrecision m) (minT m) (Suc i) rows))"
      "\<forall>k. seriesPoints (metrics m') k =
                seriesPoints (metrics m1) k +
                mset (map snd (filter (\<lambda>kp. fst kp = k)
                  (acceptedPoints clock (timestampPrecision m) (minT m) (Suc i) rows)))"
      unfolding same by blast
    have e1: "m' = m\<lparr>metrics := metrics m'\<rparr>"
      using metrics_update_twice [OF m1(3), of "metrics m'"] m'(3) by simp
    have e2: "maxStamp maxTs ((k1, DataPoint row1) # acc') = maxStamp maxTs1 acc'" for acc'
      by (simp add: maxStamp_def maxTs1_def)
    show ?thesis
      apply (rule exI [of _ m'])
      apply (simp only: step acc m'(1) e2)
      using m'(2,4,5) m1(4,5) e1 False by simp
  qed
qed

subsection \<open>insertRows\<close>

lemma foldl_min_le:
  "foldl (\<lambda>mn row. if rowTimestamp row < mn then rowTimestamp row else mn) a rows \<le> a"
proof (induction rows arbitrary: a)
  case Nil
  show ?case by simp
next
  case (Cons r rows)
  show ?case using Cons [of "if rowTimestamp r < a then rowTimestamp r else a"] by (simp split: if_splits)
qed

lemma foldl_min_le_all:
  "\<forall>r\<in>set rows. foldl (\<lambda>mn row. if rowTimestamp row < mn then rowTimestamp row else mn) a rows
      \<le> rowTimestamp r"
proof (induction rows arbitrary: a)
  case Nil
  show ?case by simp
next
  case (Cons r rows)
  show ?case
    using Cons [of "if rowTimestamp r < a then rowTimestamp r else a"]
      foldl_min_le [of "if rowTimestamp r < a then rowTimestamp r else a" rows]
    by (auto split: if_splits)
qed

lemma minOfRows_le_hd: "minOfRows rows \<le> rowTimestamp (hd rows)"
  by (simp add: minOfRows_def foldl_min_le)

lemma minOfRows_le: "r \<in> set rows \<Longrightarrow> minOfRows rows \<le> rowTimestamp r"
  using foldl_min_le_all by (simp add: minOfRows_def)

lemma maxStamp_ge: "maxTs \<le> maxStamp maxTs acc"
proof (induction acc arbitrary: maxTs)
  case Nil
  show ?case by (simp add: maxStamp_def)
next
  case (Cons kp acc)
  show ?case
    using Cons [of "if Timestamp (snd kp) > maxTs then Timestamp (snd kp) else maxTs"]
    by (simp add: maxStamp_def split: if_splits)
qed

lemma insertRows_no_rows: "insertRows app clock m [] = (Inl ErrNoRows, m)"
  by (simp add: insertRows_def)

lemma insertRows_wal_failure:
  "rows \<noteq> [] \<Longrightarrow> wal_append app (wal m) operationInsert rows = (Some err, w) \<Longrightarrow>
   insertRows app clock m rows = (Inl (ErrWAL err), m\<lparr>wal := w\<rparr>)"
  by (simp add: insertRows_def)

lemma insertRows_ok:
  assumes "metrics_ok (metrics m)" "rows \<noteq> []"
    and "wal_append app (wal m) operationInsert rows = (None, w)"
  shows "\<exists>m'. insertRows app clock m rows =
           (Inr (filter (\<lambda>r. rowTimestamp r < minInForce m rows) rows), m')
         \<and> metrics_ok (metrics m')
         \<and> m' = m\<lparr>numPoints := numPoints m +
                       int (length (acceptedPoints clock (timestampPrecision m)
                                      (minInForce m rows) 0 rows)),
                   minT := minInForce m rows,
                   maxT := max (maxT m)
                     (maxStamp (rowTimestamp (hd rows))
                        (acceptedPoints clock (timestampPrecision m) (minInForce m rows) 0 rows)),
                   metrics := metrics m', wal := w, once := True\<rparr>
         \<and> sumSizes (metrics m') + sumOutOfOrder (metrics m') =
             sumSizes (metrics m) + sumOutOfOrder (metrics m) +
             int (length (acceptedPoints clock (timestampPrecision m) (minInForce m rows) 0 rows))
         \<and> (\<forall>k. seriesPoints (metrics m') k =
                seriesPoints (metrics m) k +
                mset (map snd (filter (\<lambda>kp. fst kp = k)
                  (acceptedPoints clock (timestampPrecision m) (minInForce m rows) 0 rows))))"
proof -
  define m1 where "m1 = onceDo (m\<lparr>wal := w\<rparr>) rows"
  define acc where "acc = acceptedPoints clock (timestampPrecision m) (minInForce m rows) 0 rows"
  have f1: "metrics m1 = metrics m" "minT m1 = minInForce m rows"
    "timestampPrecision m1 = timestampPrecision m"
    by (simp_all add: m1_def onceDo_def minInForce_def)
  have m1: "m1 = m\<lparr>minT := minInForce m rows, wal := w, once := True\<rparr>"
    by (simp add: m1_def onceDo_def minInForce_def)
  have ok1: "metrics_ok (metrics m1)" using assms(1) f1 by simp
  from insertRowsLoop_ok [OF ok1, of clock 0 rows "[]" "rowTimestamp (hd rows)" 0]
  obtain m2 where m2:
    "insertRowsLoop clock 0 rows (m1, [], rowTimestamp (hd rows), 0) =
       (None, (m2, filter (\<lambda>r. rowTimestamp r < minInForce m rows) rows,
               maxStamp (rowTimestamp (hd rows)) acc, int (length acc)))"
    "metrics_ok (metrics m2)" "m2 = m1\<lparr>metrics := metrics m2\<rparr>"
    "sumSizes (metrics m2) + sumOutOfOrder (metrics m2) =
       sumSizes (metrics m) + sumOutOfOrder (metrics m) + int (length acc)"
    "\<forall>k. seriesPoints (metrics m2) k =
        seriesPoints (metrics m) k + mset (map snd (filter (\<lambda>kp. fst kp = k) acc))"
    unfolding f1 acc_def by auto
  define m4 where "m4 = m\<lparr>numPoints := numPoints m + int (length acc),
                   minT := minInForce m rows,
                   maxT := max (maxT m) (maxStamp (rowTimestamp (hd rows)) acc),
                   metrics := metrics m2, wal := w, once := True\<rparr>"
  have m2': "m2 = m\<lparr>minT := minInForce m rows, wal := w, once := True, metrics := metrics m2\<rparr>"
    using m2(3) m1 by simp
  have fields: "numPoints m2 = numPoints m" "minT m2 = minInForce m rows" "maxT m2 = maxT m"
    "wal m2 = w" "partitionDuration m2 = partitionDuration m"
    "timestampPrecision m2 = timestampPrecision m" "once m2 = True"
    "memoryPartition.more m2 = memoryPartition.more m"
    by (subst m2', simp)+
  have upd: "(if maxT (m2\<lparr>numPoints := numPoints m2 + int (length acc)\<rparr>)
                 < maxStamp (rowTimestamp (hd rows)) acc
              then m2\<lparr>numPoints := numPoints m2 + int (length acc),
                      maxT := maxStamp (rowTimestamp (hd rows)) acc\<rparr>
              else m2\<lparr>numPoints := numPoints m2 + int (length acc)\<rparr>) = m4"
    by (rule memoryPartition.equality) (simp_all add: fields m4_def max_def)
  have r: "insertRows app clock m rows =
      (Inr (filter (\<lambda>r. rowTimestamp r < minInForce m rows) rows), m4)"
    using assms(2,3) m2(1) upd
    by (simp add: insertRows_def m1_def [symmetric] Let_def)
  have "metrics m4 = metrics m2" by (simp add: m4_def)
  with r m2(2,4,5) show ?thesis
    unfolding acc_def [symmetric]
    by (intro exI [of _ m4]) (simp add: m4_def)
qed

subsection \<open>The invariant of a partition\<close>

lemma partition_ok_new: "partition_ok (newMemoryPartition w d precision)"
  by (simp add: partition_ok_def newMemoryPartition_def metrics_ok_def sumSizes_def
      sumOutOfOrder_def Let_def)

lemma partition_ok_insertRows:
  assumes "partition_ok m" "insertRows app clock m rows = (r, m')"
  shows "partition_ok m'"
proof (cases "rows = []")
  case True
  then show ?thesis using assms by (simp add: insertRows_no_rows)
next
  case False
  obtain e w where w: "wal_append app (wal m) operationInsert rows = (e, w)"
    by (cases "wal_append app (wal m) operationInsert rows")
  show ?thesis
  proof (cases e)
    case (Some err)
    then have "m' = m\<lparr>wal := w\<rparr>"
      using insertRows_wal_failure [OF False, of app m err w clock] w assms(2) by simp
    then show ?thesis using assms(1) by (simp add: partition_ok_def)
  next
    case None
    have mo: "metrics_ok (metrics m)" using assms(1) by (simp add: partition_ok_def)
    define acc where "acc = acceptedPoints clock (timestampPrecision m) (minInForce m rows) 0 rows"
    from insertRows_ok [OF mo False, of app w clock] w None assms(2)
    have m': "metrics_ok (metrics m')"
      "m' = m\<lparr>numPoints := numPoints m + int (length acc),
                   minT := minInForce m rows,
                   maxT := max (maxT m) (maxStamp (rowTimestamp (hd rows)) acc),
                   metrics := metrics m', wal := w, once := True\<rparr>"
      "sumSizes (metrics m') + sumOutOfOrder (metrics m') =
             sumSizes (metrics m) + sumOutOfOrder (metrics m) + int (length acc)"
      unfolding acc_def by auto
    have np: "numPoints m' = numPoints m + int (length acc)"
      and mn: "minT m' = minInForce m rows"
      and mx: "maxT m' = max (maxT m) (maxStamp (rowTimestamp (hd rows)) acc)"
      by (subst m'(2), simp)+
    have "minInForce m rows \<le> max (maxT m) (maxStamp (rowTimestamp (hd rows)) acc)"
    proof (cases "once m")
      case True
      then show ?thesis using assms(1) by (simp add: minInForce_def partition_ok_def max_def)
    next
      case False
      have "minOfRows rows \<le> rowTimestamp (hd rows)" by (rule minOfRows_le_hd)
      also have "\<dots> \<le> maxStamp (rowTimestamp (hd rows)) acc" by (rule maxStamp_ge)
      finally show ?thesis using False by (simp add: minInForce_def)
    qed
    then show ?thesis
      using m'(1,3) np mn mx assms(1) by (simp add: partition_ok_def)
  qed
qed

lemma partition_ok_selectDataPoints:
  assumes "partition_ok m" "selectDataPoints m metric labels start end = (r, m')"
  shows "partition_ok m'"
proof -
  obtain mt m1 where g: "getMetric m (fst (marshalMetricName metric labels)) = (mt, m1)"
    by (cases "getMetric m (fst (marshalMetricName metric labels))")
  then have e: "m' = m1" using assms(2) by (simp add: selectDataPoints_def)
  have mo: "metrics_ok (metrics m)" using assms(1) by (simp add: partition_ok_def)
  note G = getMetric_ok [OF mo g]
  have "numPoints m1 = numPoints m" "minT m1 = minT m" "maxT m1 = maxT m"
    by (subst G(4), simp)+
  then show ?thesis using G(1,5) assms(1) e by (simp add: partition_ok_def)
qed

lemma reaches_partition_ok:
  "reaches C m m' \<Longrightarrow> partition_ok m \<Longrightarrow> partition_ok m'"
  by (induction rule: reaches.induct)
    (auto intro: partition_ok_insertRows partition_ok_selectDataPoints)

lemma reachable_partition_ok: "reachable C m \<Longrightarrow> partition_ok m"
  by (auto elim!: reachable.cases intro: reaches_partition_ok partition_ok_new)


text \<open>The definitions that evaluate a call on concrete rows.\<close>

lemmas memory_eval =
  insertRows_def wal_append_def onceDo_def minOfRows_def stampRow_def getMetric_def
  storeMetric_def insertPoint_def insertPoint_fast_def insertPoint_slow_def appendInOrder_def
  newMemoryMetric_def newMemoryPartition_def marshalMetricName_def
  memoryPartition_minTimestamp_def memoryPartition_maxTimestamp_def memoryPartition_size_def
  sumSizes_def sumOutOfOrder_def toUnix_def go_div_def Let_def


subsection \<open>The binary search and selectPoints\<close>

lemma timestampAt_in_range:
  "0 \<le> h \<Longrightarrow> h < int (length ps) \<Longrightarrow> timestampAt ps h = Some (Timestamp (ps ! nat h))"
  by (simp add: timestampAt_def)

lemma Search_loop_sorted:
  assumes "sorted (map Timestamp ps)"
  shows "0 \<le> i \<Longrightarrow> i \<le> j \<Longrightarrow> j \<le> int (length ps) \<Longrightarrow>
    (\<forall>l<nat i. Timestamp (ps ! l) < x) \<Longrightarrow>
    (\<forall>l. nat j \<le> l \<and> l < length ps \<longrightarrow> x \<le> Timestamp (ps ! l)) \<Longrightarrow>
    \<exists>k. Search_loop (\<lambda>h. map_option (\<lambda>t. t \<ge> x) (timestampAt ps h)) i j = Some (int k) \<and>
        lowerBoundAt ps x k"
proof (induction "nat (j - i)" arbitrary: i j rule: less_induct)
  case less
  let ?f = "\<lambda>h. map_option (\<lambda>t. t \<ge> x) (timestampAt ps h)"
  have mono: "a \<le> b \<Longrightarrow> b < length ps \<Longrightarrow> Timestamp (ps ! a) \<le> Timestamp (ps ! b)" for a b
    using assms by (simp add: sorted_iff_nth_mono)
  show ?case
  proof (cases "i < j")
    case False
    then have ij: "i = j" using less.prems by simp
    have "lowerBoundAt ps x (nat i)"
      using less.prems ij by (auto simp add: lowerBoundAt_def)
    moreover have "Search_loop ?f i j = Some (int (nat i))"
      using False less.prems by (subst Search_loop.simps) simp
    ultimately show ?thesis by blast
  next
    case True
    define h where "h = (i + j) div 2"
    have hr: "i \<le> h" "h < j" "0 \<le> h" "h < int (length ps)"
      using True less.prems by (simp_all add: h_def)
    have th: "timestampAt ps ((i + j) div 2) = Some (Timestamp (ps ! nat ((i + j) div 2)))"
      using hr by (simp add: timestampAt_in_range h_def)
    have unfold: "Search_loop ?f i j =
        (if \<not> x \<le> Timestamp (ps ! nat h) then Search_loop ?f (h + 1) j else Search_loop ?f i h)"
      using True by (subst Search_loop.simps) (simp add: th h_def Let_def)
    show ?thesis
    proof (cases "x \<le> Timestamp (ps ! nat h)")
      case ge: True
      have up: "\<forall>l. nat h \<le> l \<and> l < length ps \<longrightarrow> x \<le> Timestamp (ps ! l)"
        using mono ge by (meson order_trans)
      have "nat (h - i) < nat (j - i)" using hr by simp
      from less.hyps [OF this less.prems(1) hr(1) _ less.prems(4) up] hr
      have "\<exists>k. Search_loop ?f i h = Some (int k) \<and> lowerBoundAt ps x k" by simp
      then show ?thesis using unfold ge by simp
    next
      case lt: False
      have low: "\<forall>l<nat (h + 1). Timestamp (ps ! l) < x"
      proof (intro allI impI)
        fix l assume "l < nat (h + 1)"
        then have "l \<le> nat h" "nat h < length ps" using hr by simp_all
        then have "Timestamp (ps ! l) \<le> Timestamp (ps ! nat h)" by (rule mono)
        then show "Timestamp (ps ! l) < x" using lt by simp
      qed
      have "nat (j - (h + 1)) < nat (j - i)" using hr by simp
      from less.hyps [OF this _ _ less.prems(3) low less.prems(5)] hr
      have "\<exists>k. Search_loop ?f (h + 1) j = Some (int k) \<and> lowerBoundAt ps x k" by simp
      then show ?thesis using unfold lt by simp
    qed
  qed
qed

lemma Search_sorted:
  assumes "sorted (map Timestamp ps)"
  shows "\<exists>k. Search (int (length ps)) (\<lambda>h. map_option (\<lambda>t. t \<ge> x) (timestampAt ps h)) = Some (int k)
     \<and> lowerBoundAt ps x k"
  unfolding Search_def
  by (rule Search_loop_sorted [OF assms]) simp_all

lemma lowerBoundAt_mono:
  assumes "lowerBoundAt ps x a" "lowerBoundAt ps y b" "x \<le> y"
  shows "a \<le> b"
proof (rule ccontr)
  assume "\<not> a \<le> b"
  then have ba: "b < a" by simp
  then have "b < length ps" using assms(1) by (simp add: lowerBoundAt_def)
  then have "y \<le> Timestamp (ps ! b)" using assms(2) by (simp add: lowerBoundAt_def)
  moreover have "Timestamp (ps ! b) < x" using assms(1) ba by (simp add: lowerBoundAt_def)
  ultimately show False using assms(3) by simp
qed

lemma window_eq_filter:
  assumes "lowerBoundAt ps start a" "lowerBoundAt ps end b" "a \<le> b"
  shows "take (b - a) (drop a ps) = filter (inWindow start end) ps"
proof -
  have len: "b \<le> length ps" using assms(2) by (simp add: lowerBoundAt_def)
  have split: "ps = take a ps @ take (b - a) (drop a ps) @ drop b ps"
    using assms(3) len
    by (metis add_diff_inverse_nat append_take_drop_id drop_drop not_less add.commute)
  have 1: "filter (inWindow start end) (take a ps) = []"
  proof -
    have "\<forall>p\<in>set (take a ps). \<not> inWindow start end p"
    proof
      fix p assume "p \<in> set (take a ps)"
      then obtain l where "l < length (take a ps)" "take a ps ! l = p"
        by (auto simp add: in_set_conv_nth)
      then have "l < a" "p = ps ! l" by simp_all
      then show "\<not> inWindow start end p"
        using assms(1) by (auto simp add: lowerBoundAt_def inWindow_def)
    qed
    then show ?thesis by (simp add: filter_empty_conv)
  qed
  have 2: "filter (inWindow start end) (drop b ps) = []"
  proof -
    have "\<forall>p\<in>set (drop b ps). \<not> inWindow start end p"
    proof
      fix p assume "p \<in> set (drop b ps)"
      then obtain l where "l < length (drop b ps)" "drop b ps ! l = p"
        by (auto simp add: in_set_conv_nth)
      then have r: "b \<le> b + l \<and> b + l < length ps" and p: "p = ps ! (b + l)"
        using len by simp_all
      have "\<forall>l. b \<le> l \<and> l < length ps \<longrightarrow> end \<le> Timestamp (ps ! l)"
        using assms(2) by (simp add: lowerBoundAt_def)
      then have "end \<le> Timestamp (ps ! (b + l))" using r by blast
      then show "\<not> inWindow start end p"
        using p by (simp add: inWindow_def)
    qed
    then show ?thesis by (simp add: filter_empty_conv)
  qed
  have 3: "filter (inWindow start end) (take (b - a) (drop a ps)) = take (b - a) (drop a ps)"
  proof -
    have "\<forall>p\<in>set (take (b - a) (drop a ps)). inWindow start end p"
    proof
      fix p assume "p \<in> set (take (b - a) (drop a ps))"
      then obtain l where l: "l < length (take (b - a) (drop a ps))"
        "take (b - a) (drop a ps) ! l = p"
        by (auto simp add: in_set_conv_nth)
      then have "l < b - a" by simp
      then have r: "a \<le> a + l" "a + l < b" "a + l < length ps" using len by simp_all
      have p: "p = ps ! (a + l)" using l r by simp
      have "\<forall>l. a \<le> l \<and> l < length ps \<longrightarrow> start \<le> Timestamp (ps ! l)"
        using assms(1) by (simp add: lowerBoundAt_def)
      then have "start \<le> Timestamp (ps ! (a + l))" using r by blast
      moreover have "Timestamp (ps ! (a + l)) < end"
        using assms(2) r by (simp add: lowerBoundAt_def)
      ultimately show "inWindow start end p"
        using p by (simp add: inWindow_def)
    qed
    then show ?thesis by (simp add: filter_id_conv)
  qed
  have "filter (inWindow start end) ps =
      filter (inWindow start end) (take a ps @ take (b - a) (drop a ps) @ drop b ps)"
    using split by simp
  then show ?thesis by (simp only: filter_append 1 2 3) simp
qed

lemma metric_ok_bounds:
  assumes "metric_ok mt" "l < length (points mt)"
  shows "minTimestamp mt \<le> Timestamp (points mt ! l)"
    and "Timestamp (points mt ! l) \<le> maxTimestamp mt"
proof -
  have ne: "points mt \<noteq> []" using assms(2) by auto
  have s: "sorted (map Timestamp (points mt))"
    using assms(1) by (simp add: metric_ok_def strict_sorted_imp_sorted)
  have mono: "a \<le> b \<Longrightarrow> b < length (points mt) \<Longrightarrow>
      Timestamp (points mt ! a) \<le> Timestamp (points mt ! b)" for a b
    using s by (simp add: sorted_iff_nth_mono)
  have "minTimestamp mt = Timestamp (points mt ! 0)"
    using assms(1) ne by (simp add: metric_ok_def hd_conv_nth)
  then show "minTimestamp mt \<le> Timestamp (points mt ! l)"
    using mono [of 0 l] assms(2) by simp
  have "maxTimestamp mt = Timestamp (points mt ! (length (points mt) - 1))"
    using assms(1) ne by (simp add: metric_ok_def last_conv_nth)
  then show "Timestamp (points mt ! l) \<le> maxTimestamp mt"
    using mono [of l "length (points mt) - 1"] assms(2) by simp
qed

lemma lowerBoundAt_start:
  "metric_ok mt \<Longrightarrow> x \<le> minTimestamp mt \<Longrightarrow> lowerBoundAt (points mt) x 0"
  using metric_ok_bounds(1) by (fastforce simp add: lowerBoundAt_def)

lemma lowerBoundAt_end:
  "metric_ok mt \<Longrightarrow> maxTimestamp mt < x \<Longrightarrow> lowerBoundAt (points mt) x (length (points mt))"
  using metric_ok_bounds(2) by (fastforce simp add: lowerBoundAt_def)

lemma reslice_nat:
  "a \<le> b \<Longrightarrow> b \<le> length s \<Longrightarrow> reslice s (int a) (int b) = Inr (take (b - a) (drop a s))"
  by (simp add: reslice_def)

lemma selectPoints_ok:
  assumes "metric_ok mt" "start \<le> end"
  shows "selectPoints mt start end = Inr (filter (inWindow start end) (points mt))"
proof (cases "end \<le> minTimestamp mt")
  case True
  have "\<forall>p\<in>set (points mt). \<not> inWindow start end p"
  proof
    fix p assume "p \<in> set (points mt)"
    then obtain l where "l < length (points mt)" "points mt ! l = p"
      by (auto simp add: in_set_conv_nth)
    then have "minTimestamp mt \<le> Timestamp p"
      using metric_ok_bounds(1) [OF assms(1)] by auto
    then show "\<not> inWindow start end p" using True by (simp add: inWindow_def)
  qed
  then have "filter (inWindow start end) (points mt) = []" by (simp add: filter_empty_conv)
  then show ?thesis using True by (simp add: selectPoints_def)
next
  case False
  have sz: "sizeM mt = int (length (points mt))"
    and s: "sorted (map Timestamp (points mt))"
    using assms(1) by (simp_all add: metric_ok_def strict_sorted_imp_sorted)
  obtain a where a: "(if start \<le> minTimestamp mt then Some 0
                  else Search (sizeM mt)
                         (\<lambda>i. map_option (\<lambda>t. t \<ge> start) (timestampAt (points mt) i))) = Some (int a)"
    "lowerBoundAt (points mt) start a"
  proof (cases "start \<le> minTimestamp mt")
    case True
    then show ?thesis using that [of 0] lowerBoundAt_start [OF assms(1)] by simp
  next
    case False
    then show ?thesis using that Search_sorted [OF s, of start] sz by auto
  qed
  obtain b where b: "(if end > maxTimestamp mt then Some (sizeM mt)
                       else Search (sizeM mt)
                              (\<lambda>i. map_option (\<lambda>t. t \<ge> end) (timestampAt (points mt) i))) = Some (int b)"
    "lowerBoundAt (points mt) end b"
  proof (cases "end > maxTimestamp mt")
    case True
    then show ?thesis using that [of "length (points mt)"] lowerBoundAt_end [OF assms(1)] sz by simp
  next
    case False
    then show ?thesis using that Search_sorted [OF s, of "end"] sz by auto
  qed
  have ab: "a \<le> b" using a(2) b(2) assms(2) by (rule lowerBoundAt_mono)
  have bl: "b \<le> length (points mt)" using b(2) by (simp add: lowerBoundAt_def)
  have "selectPoints mt start end = reslice (points mt) (int a) (int b)"
    using False a(1) b(1) by (simp add: selectPoints_def Let_def)
  also have "\<dots> = Inr (take (b - a) (drop a (points mt)))" using ab bl by (rule reslice_nat)
  also have "take (b - a) (drop a (points mt)) = filter (inWindow start end) (points mt)"
    using a(2) b(2) ab by (rule window_eq_filter)
  finally show ?thesis .
qed

lemma selectDataPoints_ok:
  assumes "metrics_ok (metrics m)" "start \<le> end"
  shows "fst (selectDataPoints m metric labels start end) =
     Inr (filter (inWindow start end) (orderedPoints m (metricKey metric labels)))"
proof -
  obtain mt m1 where g: "getMetric m (metricKey metric labels) = (mt, m1)"
    by (cases "getMetric m (metricKey metric labels)")
  note G = getMetric_ok [OF assms(1) g]
  have "points mt = orderedPoints m (metricKey metric labels)"
    using g by (auto simp add: getMetric_def orderedPoints_def newMemoryMetric_def split: option.splits)
  then show ?thesis
    using g selectPoints_ok [OF G(3) assms(2)]
    by (simp add: selectDataPoints_def metricKey_def)
qed

lemma sorted_filter_ordered:
  assumes "metrics_ok (metrics m)"
  shows "sorted (map Timestamp (filter P (orderedPoints m k)))"
proof (cases "map_of (metrics m) k")
  case None
  then show ?thesis by (simp add: orderedPoints_def)
next
  case (Some mt)
  have "list_all (\<lambda>kv. metric_ok (snd kv)) (metrics m)"
    using assms by (simp add: metrics_ok_def)
  from map_of_list_all [OF this Some] have "metric_ok mt" by simp
  then have "sorted (map Timestamp (points mt))"
    by (simp add: metric_ok_def strict_sorted_imp_sorted)
  then have "sorted (map Timestamp (filter P (points mt)))"
    by (metis sorted_filter)
  then show ?thesis using Some by (simp add: orderedPoints_def)
qed


lemmas select_eval =
  selectDataPoints_def selectPoints_def Search_def Search_loop.simps timestampAt_def
  reslice_def orderedPoints_def metricKey_def


subsection \<open>Outdated rows and stamped rows\<close>

lemma go_div_nonneg: "0 \<le> a \<Longrightarrow> 0 < b \<Longrightarrow> 0 \<le> go_div a b"
  by (simp add: go_div_def sgn_if pos_imp_zdiv_nonneg_iff)

lemma toUnix_nonneg: "0 \<le> t \<Longrightarrow> 0 \<le> toUnix t precision"
  by (cases precision) (simp_all add: toUnix_def go_div_nonneg pos_imp_zdiv_nonneg_iff)

lemma length_acceptedPoints:
  "length (acceptedPoints clock precision mn i rows) =
   length (filter (\<lambda>row. \<not> rowTimestamp row < mn) rows)"
  by (induction rows arbitrary: i) (simp_all add: Let_def)

lemma acceptedPoints_not_older:
  assumes "clockAfterEpoch clock"
  shows "\<forall>kp\<in>set (acceptedPoints clock precision mn i rows). mn \<le> Timestamp (snd kp)"
proof (induction rows arbitrary: i)
  case Nil
  show ?case by simp
next
  case (Cons row rows)
  have "0 \<le> toUnix (clock i) precision"
    using assms by (simp add: clockAfterEpoch_def toUnix_nonneg)
  then have "\<not> rowTimestamp row < mn \<Longrightarrow> mn \<le> rowTimestamp (stampRow (clock i) precision row)"
    by (auto simp add: stampRow_def)
  then show ?case using Cons [of "Suc i"] by (simp add: Let_def)
qed

lemma acceptedPoints_member:
  assumes "j < length rows" "\<not> rowTimestamp (rows ! j) < mn"
  shows "(metricKey (Metric (stampRow (clock (i + j)) precision (rows ! j)))
            (Labels (stampRow (clock (i + j)) precision (rows ! j))),
          DataPoint (stampRow (clock (i + j)) precision (rows ! j)))
         \<in> set (acceptedPoints clock precision mn i rows)"
  using assms
proof (induction rows arbitrary: i j)
  case Nil
  then show ?case by simp
next
  case (Cons row rows)
  show ?case
  proof (cases j)
    case 0
    then show ?thesis using Cons.prems by (simp add: Let_def)
  next
    case (Suc j')
    then have "j' < length rows" "\<not> rowTimestamp (rows ! j') < mn"
      using Cons.prems by simp_all
    from Cons.IH [OF this, of "Suc i"] show ?thesis
      using Suc by (simp add: Let_def)
  qed
qed

lemma no_older_points_insertRows:
  assumes "partition_ok m" "no_older_points m" "clockAfterEpoch clock"
    and "insertRows app clock m rows = (r, m')"
  shows "no_older_points m'"
proof (cases "rows = []")
  case True
  then show ?thesis using assms by (simp add: insertRows_no_rows)
next
  case False
  obtain e w where w: "wal_append app (wal m) operationInsert rows = (e, w)"
    by (cases "wal_append app (wal m) operationInsert rows")
  show ?thesis
  proof (cases e)
    case (Some err)
    then have "m' = m\<lparr>wal := w\<rparr>"
      using insertRows_wal_failure [OF False, of app m err w clock] w assms(4) by simp
    then show ?thesis using assms(2) by (simp add: no_older_points_def)
  next
    case None
    have mo: "metrics_ok (metrics m)" using assms(1) by (simp add: partition_ok_def)
    define acc where "acc = acceptedPoints clock (timestampPrecision m) (minInForce m rows) 0 rows"
    from insertRows_ok [OF mo False, of app w clock] w None assms(4)
    have m': "m' = m\<lparr>numPoints := numPoints m + int (length acc),
                   minT := minInForce m rows,
                   maxT := max (maxT m) (maxStamp (rowTimestamp (hd rows)) acc),
                   metrics := metrics m', wal := w, once := True\<rparr>"
      "\<forall>k. seriesPoints (metrics m') k =
                seriesPoints (metrics m) k + mset (map snd (filter (\<lambda>kp. fst kp = k) acc))"
      unfolding acc_def by auto
    have mn: "minT m' = minInForce m rows" and on: "once m' = True"
      by (subst m'(1), simp)+
    have ge: "\<forall>kp\<in>set acc. minInForce m rows \<le> Timestamp (snd kp)"
      unfolding acc_def using assms(3) by (rule acceptedPoints_not_older)
    show ?thesis
      unfolding no_older_points_def
    proof (intro allI impI)
      fix k p assume "p \<in># seriesPoints (metrics m') k"
      then consider (old) "p \<in># seriesPoints (metrics m) k"
        | (new) "p \<in> set (map snd (filter (\<lambda>kp. fst kp = k) acc))"
        using m'(2) by auto
      then show "once m' \<and> minT m' \<le> Timestamp p"
      proof cases
        case old
        then have "once m \<and> minT m \<le> Timestamp p"
          using assms(2) by (simp add: no_older_points_def)
        then show ?thesis using mn on by (simp add: minInForce_def)
      next
        case new
        then show ?thesis using ge mn on by auto
      qed
    qed
  qed
qed

lemma selectDataPoints_state:
  assumes "metrics_ok (metrics m)" "selectDataPoints m metric labels start end = (r, m')"
  shows "seriesPoints (metrics m') = seriesPoints (metrics m)"
    and "once m' = once m" and "minT m' = minT m"
proof -
  obtain mt m1 where g: "getMetric m (fst (marshalMetricName metric labels)) = (mt, m1)"
    by (cases "getMetric m (fst (marshalMetricName metric labels))")
  then have e: "m' = m1" using assms(2) by (simp add: selectDataPoints_def)
  note G = getMetric_ok [OF assms(1) g]
  show "seriesPoints (metrics m') = seriesPoints (metrics m)" using G(6) e by simp
  show "once m' = once m" "minT m' = minT m" unfolding e by (subst G(4), simp)+
qed

lemma no_older_points_selectDataPoints:
  assumes "partition_ok m" "no_older_points m"
    and "selectDataPoints m metric labels start end = (r, m')"
  shows "no_older_points m'"
proof -
  have mo: "metrics_ok (metrics m)" using assms(1) by (simp add: partition_ok_def)
  show ?thesis
    using selectDataPoints_state [OF mo assms(3)] assms(2) by (simp add: no_older_points_def)
qed

lemma no_older_points_new: "no_older_points (newMemoryPartition w d precision)"
  by (simp add: no_older_points_def newMemoryPartition_def seriesPoints_def Let_def)

lemma reaches_no_older_points:
  "reaches clockAfterEpoch m m' \<Longrightarrow> partition_ok m \<Longrightarrow> no_older_points m \<Longrightarrow>
   partition_ok m' \<and> no_older_points m'"
proof (induction rule: reaches.induct)
  case (reaches_refl m)
  then show ?case by simp
next
  case (reaches_insert m m1 clock app rows r m2)
  then show ?case
    using partition_ok_insertRows no_older_points_insertRows by blast
next
  case (reaches_select m m1 metric labels start "end" r m2)
  then show ?case
    using partition_ok_selectDataPoints no_older_points_selectDataPoints by blast
qed

lemma reachable_no_older_points:
  "reachable clockAfterEpoch m \<Longrightarrow> partition_ok m \<and> no_older_points m"
  by (auto elim!: reachable.cases
      dest: reaches_no_older_points [OF _ partition_ok_new no_older_points_new])

lemma insertRows_once:
  assumes "partition_ok m" "once m" "insertRows app clock m rows = (r, m')"
  shows "once m' \<and> minT m' = minT m"
proof (cases "rows = []")
  case True
  then show ?thesis using assms by (simp add: insertRows_no_rows)
next
  case False
  obtain e w where w: "wal_append app (wal m) operationInsert rows = (e, w)"
    by (cases "wal_append app (wal m) operationInsert rows")
  show ?thesis
  proof (cases e)
    case (Some err)
    then have "m' = m\<lparr>wal := w\<rparr>"
      using insertRows_wal_failure [OF False, of app m err w clock] w assms(3) by simp
    then show ?thesis using assms(2) by simp
  next
    case None
    have mo: "metrics_ok (metrics m)" using assms(1) by (simp add: partition_ok_def)
    define acc where "acc = acceptedPoints clock (timestampPrecision m) (minInForce m rows) 0 rows"
    from insertRows_ok [OF mo False, of app w clock] w None assms(3)
    have m': "m' = m\<lparr>numPoints := numPoints m + int (length acc),
                   minT := minInForce m rows,
                   maxT := max (maxT m) (maxStamp (rowTimestamp (hd rows)) acc),
                   metrics := metrics m', wal := w, once := True\<rparr>"
      unfolding acc_def by auto
    have "minT m' = minInForce m rows" "once m' = True"
      by (subst m', simp)+
    then show ?thesis using assms(2) by (simp add: minInForce_def)
  qed
qed

lemma reaches_once:
  "reaches C m m' \<Longrightarrow> partition_ok m \<Longrightarrow> once m \<Longrightarrow>
   partition_ok m' \<and> once m' \<and> minT m' = minT m"
proof (induction rule: reaches.induct)
  case (reaches_refl m)
  then show ?case by simp
next
  case (reaches_insert m m1 clock app rows r m2)
  then show ?case
    using partition_ok_insertRows [of m1 app clock rows r m2]
      insertRows_once [of m1 app clock rows r m2] by simp
next
  case (reaches_select m m1 metric labels start "end" r m2)
  then have mo: "metrics_ok (metrics m1)" by (simp add: partition_ok_def)
  show ?case
    using reaches_select partition_ok_selectDataPoints [of m1 metric labels start "end" r m2]
      selectDataPoints_state(2,3) [OF mo reaches_select.hyps(2)] by simp
qed

lemma selectPoints_subset:
  "selectPoints mt start end = Inr pts \<Longrightarrow> set pts \<subseteq> set (points mt)"
  by (auto simp add: selectPoints_def reslice_def Let_def
      split: if_splits option.splits dest!: in_set_takeD in_set_dropD)

lemma selectDataPoints_subset:
  assumes "fst (selectDataPoints m metric labels start end) = Inr pts" "p \<in> set pts"
  shows "p \<in># seriesPoints (metrics m) (metricKey metric labels)"
proof -
  obtain mt m1 where g: "getMetric m (metricKey metric labels) = (mt, m1)"
    by (cases "getMetric m (metricKey metric labels)")
  then have "selectPoints mt start end = Inr pts"
    using assms(1) by (simp add: selectDataPoints_def metricKey_def)
  then have p: "p \<in> set (points mt)" using assms(2) selectPoints_subset by blast
  then have "map_of (metrics m) (metricKey metric labels) = Some mt"
    using g by (auto simp add: getMetric_def newMemoryMetric_def split: option.splits)
  then show ?thesis using p by (simp add: seriesPoints_def storedPoints_def)
qed


text \<open>
  Claim C5 (WAL atomicity).  When the append to the write-ahead log fails, \<open>insertRows\<close>
  returns an error and leaves the partition as it was: \<open>minT\<close>, \<open>maxT\<close>, \<open>numPoints\<close> and
  the map of series, hence the ordered and the out-of-order points of every series, are
  those of before the call.
\<close>

theorem insertRows_wal_failure_atomic:
  assumes "rows \<noteq> []"
    and "wal_append app (wal m) operationInsert rows = (Some err, w)"
  shows "fst (insertRows app clock m rows) = Inl (ErrWAL err) \<and>
         minT (snd (insertRows app clock m rows)) = minT m \<and>
         maxT (snd (insertRows app clock m rows)) = maxT m \<and>
         numPoints (snd (insertRows app clock m rows)) = numPoints m \<and>
         metrics (snd (insertRows app clock m rows)) = metrics m \<and>
         once (snd (insertRows app clock m rows)) = once m"
  using assms by (simp add: insertRows_def)

theorem insertRows_wal_failure_atomic_witness:
  "fst (insertRows (\<lambda>s operation rows. (Some ''disk full'', s)) (\<lambda>i. 0)
          (newMemoryPartition (Some (fileWAL ())) 3600 Seconds)
          [\<lparr>Metric = ''m1'', Labels = [], DataPoint = \<lparr>Timestamp = 1, DataPoint.Value = 0\<rparr>\<rparr>]) =
     Inl (ErrWAL ''disk full'') \<and>
   metrics (snd (insertRows (\<lambda>s operation rows. (Some ''disk full'', s)) (\<lambda>i. 0)
          (newMemoryPartition (Some (fileWAL ())) 3600 Seconds)
          [\<lparr>Metric = ''m1'', Labels = [], DataPoint = \<lparr>Timestamp = 1, DataPoint.Value = 0\<rparr>\<rparr>])) = [] \<and>
   numPoints (snd (insertRows (\<lambda>s operation rows. (Some ''disk full'', s)) (\<lambda>i. 0)
          (newMemoryPartition (Some (fileWAL ())) 3600 Seconds)
          [\<lparr>Metric = ''m1'', Labels = [], DataPoint = \<lparr>Timestamp = 1, DataPoint.Value = 0\<rparr>\<rparr>])) = 0"
proof -
  let ?m = "newMemoryPartition (Some (fileWAL ())) 3600 Seconds :: unit memoryPartition"
  let ?rows = "[\<lparr>Metric = ''m1'', Labels = [], DataPoint = \<lparr>Timestamp = 1, DataPoint.Value = 0\<rparr>\<rparr>]"
  have 1: "?rows \<noteq> []" by simp
  have 2: "wal_append (\<lambda>s operation rows. (Some ''disk full'', s)) (wal ?m) operationInsert ?rows =
      (Some ''disk full'', fileWAL ())"
    by (simp add: wal_append_def newMemoryPartition_def)
  have 3: "metrics ?m = []" "numPoints ?m = 0"
    by (simp_all add: newMemoryPartition_def)
  show ?thesis
    using insertRows_wal_failure_atomic [OF 1 2, of "\<lambda>i. 0"] 3 by simp
qed

text \<open>
  Claim C7 (counting invariant), as the code has it.  In every partition that arises from
  a new one by calls of \<open>insertRows\<close> (successful or not) and of \<open>selectDataPoints\<close>,
  \<open>minTimestamp() \<le> maxTimestamp()\<close>, and \<open>numPoints\<close> is the sum of the size counters of
  the series plus the number of the out-of-order points: the size counter of a series
  counts its ordered points only.
\<close>

theorem memoryPartition_counting:
  assumes "reachable anyClock m"
  shows "memoryPartition_minTimestamp m \<le> memoryPartition_maxTimestamp m \<and>
         memoryPartition_size m = sumSizes (metrics m) + sumOutOfOrder (metrics m)"
  using reachable_partition_ok [OF assms]
  by (simp add: partition_ok_def memoryPartition_minTimestamp_def
      memoryPartition_maxTimestamp_def memoryPartition_size_def)

theorem memoryPartition_counting_witness:
  "reachable anyClock (snd (insertRows (\<lambda>s operation rows. (None, s)) (\<lambda>i. 0)
          (newMemoryPartition (None :: unit wal option) 3600 Nanoseconds)
          [\<lparr>Metric = ''m1'', Labels = [], DataPoint = \<lparr>Timestamp = 5, DataPoint.Value = 0\<rparr>\<rparr>,
           \<lparr>Metric = ''m1'', Labels = [], DataPoint = \<lparr>Timestamp = 3, DataPoint.Value = 0\<rparr>\<rparr>])) \<and>
   memoryPartition_size (snd (insertRows (\<lambda>s operation rows. (None, s)) (\<lambda>i. 0)
          (newMemoryPartition (None :: unit wal option) 3600 Nanoseconds)
          [\<lparr>Metric = ''m1'', Labels = [], DataPoint = \<lparr>Timestamp = 5, DataPoint.Value = 0\<rparr>\<rparr>,
           \<lparr>Metric = ''m1'', Labels = [], DataPoint = \<lparr>Timestamp = 3, DataPoint.Value = 0\<rparr>\<rparr>])) =
   sumSizes (metrics (snd (insertRows (\<lambda>s operation rows. (None, s)) (\<lambda>i. 0)
          (newMemoryPartition (None :: unit wal option) 3600 Nanoseconds)
          [\<lparr>Metric = ''m1'', Labels = [], DataPoint = \<lparr>Timestamp = 5, DataPoint.Value = 0\<rparr>\<rparr>,
           \<lparr>Metric = ''m1'', Labels = [], DataPoint = \<lparr>Timestamp = 3, DataPoint.Value = 0\<rparr>\<rparr>]))) +
   sumOutOfOrder (metrics (snd (insertRows (\<lambda>s operation rows. (None, s)) (\<lambda>i. 0)
          (newMemoryPartition (None :: unit wal option) 3600 Nanoseconds)
          [\<lparr>Metric = ''m1'', Labels = [], DataPoint = \<lparr>Timestamp = 5, DataPoint.Value = 0\<rparr>\<rparr>,
           \<lparr>Metric = ''m1'', Labels = [], DataPoint = \<lparr>Timestamp = 3, DataPoint.Value = 0\<rparr>\<rparr>])))"
proof -
  let ?m = "snd (insertRows (\<lambda>s operation rows. (None, s)) (\<lambda>i. 0)
          (newMemoryPartition (None :: unit wal option) 3600 Nanoseconds)
          [\<lparr>Metric = ''m1'', Labels = [], DataPoint = \<lparr>Timestamp = 5, DataPoint.Value = 0\<rparr>\<rparr>,
           \<lparr>Metric = ''m1'', Labels = [], DataPoint = \<lparr>Timestamp = 3, DataPoint.Value = 0\<rparr>\<rparr>])"
  have e: "insertRows (\<lambda>s operation rows. (None, s)) (\<lambda>i. 0)
          (newMemoryPartition (None :: unit wal option) 3600 Nanoseconds)
          [\<lparr>Metric = ''m1'', Labels = [], DataPoint = \<lparr>Timestamp = 5, DataPoint.Value = 0\<rparr>\<rparr>,
           \<lparr>Metric = ''m1'', Labels = [], DataPoint = \<lparr>Timestamp = 3, DataPoint.Value = 0\<rparr>\<rparr>] =
        (fst (insertRows (\<lambda>s operation rows. (None, s)) (\<lambda>i. 0)
          (newMemoryPartition (None :: unit wal option) 3600 Nanoseconds)
          [\<lparr>Metric = ''m1'', Labels = [], DataPoint = \<lparr>Timestamp = 5, DataPoint.Value = 0\<rparr>\<rparr>,
           \<lparr>Metric = ''m1'', Labels = [], DataPoint = \<lparr>Timestamp = 3, DataPoint.Value = 0\<rparr>\<rparr>]), ?m)"
    by simp
  have "reaches anyClock (newMemoryPartition (None :: unit wal option) 3600 Nanoseconds) ?m"
    by (rule reaches_insert [OF reaches_refl _ e]) (simp add: anyClock_def)
  then have r: "reachable anyClock ?m" by (rule reachable_new)
  show ?thesis
    using memoryPartition_counting [OF r] r by simp
qed

text \<open>
  The claim as stated fails when a point arrives out of order: after the rows with the
  timestamps 5 and 3 for one series, the partition counts two points and the series one.
\<close>

theorem memoryPartition_counting_counterexample:
  "fst (insertRows (\<lambda>s operation rows. (None, s)) (\<lambda>i. 0)
          (newMemoryPartition (None :: unit wal option) 3600 Nanoseconds)
          [\<lparr>Metric = ''m1'', Labels = [], DataPoint = \<lparr>Timestamp = 5, DataPoint.Value = 0\<rparr>\<rparr>,
           \<lparr>Metric = ''m1'', Labels = [], DataPoint = \<lparr>Timestamp = 3, DataPoint.Value = 0\<rparr>\<rparr>]) = Inr [] \<and>
   memoryPartition_size (snd (insertRows (\<lambda>s operation rows. (None, s)) (\<lambda>i. 0)
          (newMemoryPartition (None :: unit wal option) 3600 Nanoseconds)
          [\<lparr>Metric = ''m1'', Labels = [], DataPoint = \<lparr>Timestamp = 5, DataPoint.Value = 0\<rparr>\<rparr>,
           \<lparr>Metric = ''m1'', Labels = [], DataPoint = \<lparr>Timestamp = 3, DataPoint.Value = 0\<rparr>\<rparr>])) = 2 \<and>
   sumSizes (metrics (snd (insertRows (\<lambda>s operation rows. (None, s)) (\<lambda>i. 0)
          (newMemoryPartition (None :: unit wal option) 3600 Nanoseconds)
          [\<lparr>Metric = ''m1'', Labels = [], DataPoint = \<lparr>Timestamp = 5, DataPoint.Value = 0\<rparr>\<rparr>,
           \<lparr>Metric = ''m1'', Labels = [], DataPoint = \<lparr>Timestamp = 3, DataPoint.Value = 0\<rparr>\<rparr>]))) = 1"
  by (simp add: memory_eval)


text \<open>
  Claim C3 (in-memory select window), as the code has it.  In every partition that arises
  from a new one, for every metric, labels and query range with \<open>start \<le> end\<close>,
  \<open>selectDataPoints\<close> returns exactly the points of the ordered list of the series whose
  timestamp \<open>t\<close> satisfies \<open>start \<le> t < end\<close>, in the order of that list, which is ascending
  by timestamp; nothing comes from the out-of-order list.
\<close>

theorem selectDataPoints_window:
  assumes "reachable anyClock m" "start \<le> end"
  shows "fst (selectDataPoints m metric labels start end) =
           Inr (filter (\<lambda>p. start \<le> Timestamp p \<and> Timestamp p < end)
                  (orderedPoints m (metricKey metric labels))) \<and>
         sorted (map Timestamp
           (filter (\<lambda>p. start \<le> Timestamp p \<and> Timestamp p < end)
              (orderedPoints m (metricKey metric labels))))"
proof -
  have mo: "metrics_ok (metrics m)"
    using reachable_partition_ok [OF assms(1)] by (simp add: partition_ok_def)
  have w: "inWindow start end = (\<lambda>p. start \<le> Timestamp p \<and> Timestamp p < end)"
    by (rule ext) (simp add: inWindow_def)
  show ?thesis
    using selectDataPoints_ok [OF mo assms(2), of metric labels] sorted_filter_ordered [OF mo]
    by (simp add: w)
qed

theorem selectDataPoints_window_witness:
  "(1::int) \<le> 10 \<and>
   fst (selectDataPoints
     (snd (insertRows (\<lambda>s operation rows. (None, s)) (\<lambda>i. 0)
          (newMemoryPartition (None :: unit wal option) 3600 Nanoseconds)
          [\<lparr>Metric = ''m1'', Labels = [], DataPoint = \<lparr>Timestamp = 5, DataPoint.Value = 0\<rparr>\<rparr>,
           \<lparr>Metric = ''m1'', Labels = [], DataPoint = \<lparr>Timestamp = 3, DataPoint.Value = 0\<rparr>\<rparr>]))
     ''m1'' [] 1 10) = Inr [\<lparr>Timestamp = 5, DataPoint.Value = 0\<rparr>]"
proof -
  let ?new = "newMemoryPartition (None :: unit wal option) 3600 Nanoseconds"
  let ?rows = "[\<lparr>Metric = ''m1'', Labels = [], DataPoint = \<lparr>Timestamp = 5, DataPoint.Value = 0\<rparr>\<rparr>,
           \<lparr>Metric = ''m1'', Labels = [], DataPoint = \<lparr>Timestamp = 3, DataPoint.Value = 0\<rparr>\<rparr>]"
  let ?part = "snd (insertRows (\<lambda>s operation rows. (None, s)) (\<lambda>i. 0) ?new ?rows)"
  have e: "insertRows (\<lambda>s operation rows. (None, s)) (\<lambda>i. 0) ?new ?rows =
      (fst (insertRows (\<lambda>s operation rows. (None, s)) (\<lambda>i. 0) ?new ?rows), ?part)"
    by simp
  have "reaches anyClock ?new ?part"
    by (rule reaches_insert [OF reaches_refl _ e]) (simp add: anyClock_def)
  then have r: "reachable anyClock ?part" by (rule reachable_new)
  have o: "orderedPoints ?part (metricKey ''m1'' []) = [\<lparr>Timestamp = 5, DataPoint.Value = 0\<rparr>]"
    by (simp add: memory_eval orderedPoints_def metricKey_def)
  show ?thesis
    using selectDataPoints_window [OF r, of 1 10 "''m1''" "[]"] o by simp
qed

text \<open>
  The claim as stated fails for a range with \<open>end < start\<close>: on a series with the timestamps
  1, 2 and 3 the query from 3 to 2 finds the start index 2 and the end index 1, and the slice
  expression \<open>m.points[2:1]\<close> panics.
\<close>

theorem selectDataPoints_window_counterexample:
  "fst (selectDataPoints
     (snd (insertRows (\<lambda>s operation rows. (None, s)) (\<lambda>i. 0)
          (newMemoryPartition (None :: unit wal option) 3600 Nanoseconds)
          [\<lparr>Metric = ''m1'', Labels = [], DataPoint = \<lparr>Timestamp = 1, DataPoint.Value = 0\<rparr>\<rparr>,
           \<lparr>Metric = ''m1'', Labels = [], DataPoint = \<lparr>Timestamp = 2, DataPoint.Value = 0\<rparr>\<rparr>,
           \<lparr>Metric = ''m1'', Labels = [], DataPoint = \<lparr>Timestamp = 3, DataPoint.Value = 0\<rparr>\<rparr>]))
     ''m1'' [] 3 2) = Inl ErrPanic"
  by (simp add: memory_eval select_eval)


text \<open>
  Claim C2 (outdated rows).  Let the minimal timestamp of a partition be fixed by an earlier
  call of \<open>insertRows\<close>, and let a later call, whose append to the log succeeds, bring a batch
  of rows.  Then the call returns exactly the rows of the batch that are older than the
  minimal timestamp, in their order; the number of points of the partition grows by the
  number of the other rows only; and from then on no series of the partition holds a point
  older than the minimal timestamp, and no call of \<open>selectDataPoints\<close> returns one.  (The
  clock that stamps rows without a timestamp never shows a time before the Unix epoch.)
\<close>

theorem insertRows_outdated_rows:
  assumes "reachable clockAfterEpoch m" "once m" "clockAfterEpoch clock" "rows \<noteq> []"
    and "wal_append app (wal m) operationInsert rows = (None, w)"
  shows "fst (insertRows app clock m rows) =
           Inr (filter (\<lambda>row. rowTimestamp row < memoryPartition_minTimestamp m) rows) \<and>
         memoryPartition_size (snd (insertRows app clock m rows)) =
           memoryPartition_size m +
           int (length (filter (\<lambda>row. \<not> rowTimestamp row < memoryPartition_minTimestamp m) rows)) \<and>
         (\<forall>m'' k p. reaches clockAfterEpoch (snd (insertRows app clock m rows)) m'' \<longrightarrow>
            p \<in># seriesPoints (metrics m'') k \<longrightarrow>
            memoryPartition_minTimestamp m \<le> Timestamp p) \<and>
         (\<forall>m'' metric labels start end pts p.
            reaches clockAfterEpoch (snd (insertRows app clock m rows)) m'' \<longrightarrow>
            fst (selectDataPoints m'' metric labels start end) = Inr pts \<longrightarrow> p \<in> set pts \<longrightarrow>
            memoryPartition_minTimestamp m \<le> Timestamp p)"
proof -
  obtain r m' where res: "insertRows app clock m rows = (r, m')"
    by (cases "insertRows app clock m rows")
  have inv: "partition_ok m" "no_older_points m"
    using reachable_no_older_points [OF assms(1)] by simp_all
  have mo: "metrics_ok (metrics m)" using inv(1) by (simp add: partition_ok_def)
  have mn: "minInForce m rows = minT m" using assms(2) by (simp add: minInForce_def)
  define acc where "acc = acceptedPoints clock (timestampPrecision m) (minT m) 0 rows"
  from insertRows_ok [OF mo assms(4,5), of clock] res
  have r: "r = Inr (filter (\<lambda>row. rowTimestamp row < minT m) rows)"
    and m': "m' = m\<lparr>numPoints := numPoints m + int (length acc),
                   minT := minT m,
                   maxT := max (maxT m) (maxStamp (rowTimestamp (hd rows)) acc),
                   metrics := metrics m', wal := w, once := True\<rparr>"
    unfolding acc_def mn by auto
  have np: "numPoints m' = numPoints m + int (length acc)"
    by (subst m', simp)
  have inv': "partition_ok m'" "no_older_points m'" "once m'" "minT m' = minT m"
    using partition_ok_insertRows [OF inv(1) res]
      no_older_points_insertRows [OF inv assms(3) res]
      insertRows_once [OF inv(1) assms(2) res] by simp_all
  have later: "partition_ok m'' \<and> no_older_points m'' \<and> minT m'' = minT m"
    if "reaches clockAfterEpoch m' m''" for m''
    using reaches_no_older_points [OF that inv'(1,2)] reaches_once [OF that inv'(1,3)] inv'(4)
    by simp
  have stored: "minT m \<le> Timestamp p"
    if "reaches clockAfterEpoch m' m''" "p \<in># seriesPoints (metrics m'') k" for m'' k p
    using later [OF that(1)] that(2) by (auto simp add: no_older_points_def)
  have sel: "minT m \<le> Timestamp p"
    if "reaches clockAfterEpoch m' m''"
      "fst (selectDataPoints m'' metric labels start end) = Inr pts" "p \<in> set pts"
    for m'' metric labels start "end" pts p
    using stored [OF that(1) selectDataPoints_subset [OF that(2,3)]] .
  show ?thesis
    unfolding res fst_conv snd_conv memoryPartition_minTimestamp_def memoryPartition_size_def
    using r np stored sel by (simp add: acc_def length_acceptedPoints)
qed

theorem insertRows_outdated_rows_witness:
  "fst (insertRows (\<lambda>s operation rows. (None, s)) (\<lambda>i. 0)
     (snd (insertRows (\<lambda>s operation rows. (None, s)) (\<lambda>i. 0)
          (newMemoryPartition (None :: unit wal option) 3600 Nanoseconds)
          [\<lparr>Metric = ''m1'', Labels = [], DataPoint = \<lparr>Timestamp = 100, DataPoint.Value = 0\<rparr>\<rparr>]))
     [\<lparr>Metric = ''m1'', Labels = [], DataPoint = \<lparr>Timestamp = 50, DataPoint.Value = 0\<rparr>\<rparr>]) =
   Inr [\<lparr>Metric = ''m1'', Labels = [], DataPoint = \<lparr>Timestamp = 50, DataPoint.Value = 0\<rparr>\<rparr>]"
proof -
  let ?app = "\<lambda>(s::unit) (operation::walOperation) (rows::Row list). (None :: string option, s)"
  let ?clock = "\<lambda>i::nat. 0::int"
  let ?new = "newMemoryPartition (None :: unit wal option) 3600 Nanoseconds"
  let ?first = "[\<lparr>Metric = ''m1'', Labels = [], DataPoint = \<lparr>Timestamp = 100, DataPoint.Value = 0\<rparr>\<rparr>]"
  let ?later = "[\<lparr>Metric = ''m1'', Labels = [], DataPoint = \<lparr>Timestamp = 50, DataPoint.Value = 0\<rparr>\<rparr>]"
  let ?part = "snd (insertRows ?app ?clock ?new ?first)"
  have c: "clockAfterEpoch ?clock" by (simp add: clockAfterEpoch_def)
  have e: "insertRows ?app ?clock ?new ?first = (fst (insertRows ?app ?clock ?new ?first), ?part)"
    by simp
  have "reaches clockAfterEpoch ?new ?part"
    by (rule reaches_insert [where C = clockAfterEpoch and clock = ?clock, OF reaches_refl c e])
  then have r: "reachable clockAfterEpoch ?part" by (rule reachable_new)
  have o: "once ?part" by (simp add: memory_eval)
  have n: "?later \<noteq> []" by simp
  have w: "wal_append ?app (wal ?part) operationInsert ?later = (None, nopWAL)"
    by (simp add: memory_eval)
  have mn: "memoryPartition_minTimestamp ?part = 100" by (simp add: memory_eval)
  have "fst (insertRows ?app ?clock ?part ?later) =
      Inr (filter (\<lambda>row. rowTimestamp row < memoryPartition_minTimestamp ?part) ?later)"
    using insertRows_outdated_rows [OF r o c n w] by (rule conjunct1)
  then show ?thesis unfolding mn by simp
qed


text \<open>
  Zero-timestamp stamping, where it works.  A row with \<open>Timestamp == 0\<close> is stamped with
  the current time in the precision of the partition and inserted into its series, provided
  that the minimal timestamp of the partition, if it is already fixed, is not positive.
  (The call that fixes the minimal timestamp takes it from the batch, where the row counts
  with its timestamp 0.)
\<close>

lemma insertRows_stamps_zero_timestamp_early:
  assumes "reachable anyClock m" "rows \<noteq> []"
    and "wal_append app (wal m) operationInsert rows = (None, w)"
    and "j < length rows" "rowTimestamp (rows ! j) = 0"
    and "once m \<longrightarrow> memoryPartition_minTimestamp m \<le> 0"
  shows "(DataPoint (rows ! j))\<lparr>Timestamp := toUnix (clock j) (timestampPrecision m)\<rparr>
           \<in># seriesPoints (metrics (snd (insertRows app clock m rows)))
                 (metricKey (Metric (rows ! j)) (Labels (rows ! j))) \<and>
         (\<exists>outdatedRows. fst (insertRows app clock m rows) = Inr outdatedRows \<and>
                          rows ! j \<notin> set outdatedRows)"
proof -
  have mo: "metrics_ok (metrics m)"
    using reachable_partition_ok [OF assms(1)] by (simp add: partition_ok_def)
  have mem: "rows ! j \<in> set rows" using assms(4) by simp
  have mn: "minInForce m rows \<le> 0"
  proof (cases "once m")
    case True
    then show ?thesis
      using assms(6) by (simp add: minInForce_def memoryPartition_minTimestamp_def)
  next
    case False
    then show ?thesis using minOfRows_le [OF mem] assms(5) by (simp add: minInForce_def)
  qed
  then have acc: "\<not> rowTimestamp (rows ! j) < minInForce m rows" using assms(5) by simp
  define stamped where
    "stamped = (DataPoint (rows ! j))\<lparr>Timestamp := toUnix (clock j) (timestampPrecision m)\<rparr>"
  have st: "stampRow (clock j) (timestampPrecision m) (rows ! j) =
      (rows ! j)\<lparr>DataPoint := stamped\<rparr>"
    using assms(5) by (simp add: stampRow_def stamped_def)
  have "(metricKey (Metric (rows ! j)) (Labels (rows ! j)), stamped)
      \<in> set (acceptedPoints clock (timestampPrecision m) (minInForce m rows) 0 rows)"
    using acceptedPoints_member [OF assms(4) acc, of clock 0 "timestampPrecision m"]
    by (simp add: st)
  then have in_acc: "stamped \<in> set (map snd (filter
       (\<lambda>kp. fst kp = metricKey (Metric (rows ! j)) (Labels (rows ! j)))
       (acceptedPoints clock (timestampPrecision m) (minInForce m rows) 0 rows)))"
    by force
  obtain m' where m': "insertRows app clock m rows =
           (Inr (filter (\<lambda>r. rowTimestamp r < minInForce m rows) rows), m')"
     "\<forall>k. seriesPoints (metrics m') k =
                seriesPoints (metrics m) k +
                mset (map snd (filter (\<lambda>kp. fst kp = k)
                  (acceptedPoints clock (timestampPrecision m) (minInForce m rows) 0 rows)))"
    using insertRows_ok [OF mo assms(2,3), of clock] by blast
  have 1: "stamped \<in># seriesPoints (metrics m')
                 (metricKey (Metric (rows ! j)) (Labels (rows ! j)))"
    using m'(2) in_acc by simp
  have 2: "rows ! j \<notin> set (filter (\<lambda>r. rowTimestamp r < minInForce m rows) rows)"
    using acc by simp
  show ?thesis
    unfolding m'(1) fst_conv snd_conv stamped_def [symmetric] using 1 2 by blast
qed


lemma insertRows_stamps_zero_timestamp_early_example:
  "\<lparr>Timestamp = 1700, DataPoint.Value = 7\<rparr> \<in>#
     seriesPoints (metrics (snd (insertRows (\<lambda>s operation rows. (None, s)) (\<lambda>i. 1700)
          (newMemoryPartition (None :: unit wal option) 3600 Nanoseconds)
          [\<lparr>Metric = ''m1'', Labels = [], DataPoint = \<lparr>Timestamp = 0, DataPoint.Value = 7\<rparr>\<rparr>])))
       ''m1''"
proof -
  let ?app = "\<lambda>(s::unit) (operation::walOperation) (rows::Row list). (None :: string option, s)"
  let ?clock = "\<lambda>i::nat. 1700::int"
  let ?new = "newMemoryPartition (None :: unit wal option) 3600 Nanoseconds"
  let ?rows = "[\<lparr>Metric = ''m1'', Labels = [], DataPoint = \<lparr>Timestamp = 0, DataPoint.Value = 7\<rparr>\<rparr>]"
  have r: "reachable anyClock ?new" by (rule reachable_new [OF reaches_refl])
  have n: "?rows \<noteq> []" by simp
  have w: "wal_append ?app (wal ?new) operationInsert ?rows = (None, nopWAL)"
    by (simp add: memory_eval)
  have j: "0 < length ?rows" "rowTimestamp (?rows ! 0) = 0" by simp_all
  have o: "once ?new \<longrightarrow> memoryPartition_minTimestamp ?new \<le> 0" by (simp add: memory_eval)
  have k: "metricKey ''m1'' [] = ''m1''" by (simp add: metricKey_def marshalMetricName_def)
  have p: "timestampPrecision ?new = Nanoseconds" by (simp add: memory_eval)
  have "(DataPoint (?rows ! 0))\<lparr>Timestamp := toUnix (?clock 0) (timestampPrecision ?new)\<rparr>
           \<in># seriesPoints (metrics (snd (insertRows ?app ?clock ?new ?rows)))
                 (metricKey (Metric (?rows ! 0)) (Labels (?rows ! 0)))"
    using insertRows_stamps_zero_timestamp_early [OF r n w j o, of ?clock] by (rule conjunct1)
  then show ?thesis unfolding p by (simp add: k toUnix_def)
qed


text \<open>
  Claim C6 (zero-timestamp stamping).  The loop of \<open>insertRows\<close> has the branch that stamps
  a row with \<open>Timestamp == 0\<close>, but it comes after the test
  \<open>row.Timestamp < m.minTimestamp()\<close>.  Once the minimal timestamp of the partition is
  positive the branch is out of reach: after a first row with the timestamp 100, a row with
  the timestamp 0 is older than the minimal timestamp; it is returned among the outdated
  rows, as it came, and the series is unchanged.
\<close>

theorem insertRows_zero_timestamp_outdated:
  "fst (insertRows (\<lambda>s operation rows. (None, s)) (\<lambda>i. 1700)
     (snd (insertRows (\<lambda>s operation rows. (None, s)) (\<lambda>i. 1700)
          (newMemoryPartition (None :: unit wal option) 3600 Nanoseconds)
          [\<lparr>Metric = ''m1'', Labels = [], DataPoint = \<lparr>Timestamp = 100, DataPoint.Value = 0\<rparr>\<rparr>]))
     [\<lparr>Metric = ''m1'', Labels = [], DataPoint = \<lparr>Timestamp = 0, DataPoint.Value = 7\<rparr>\<rparr>]) =
   Inr [\<lparr>Metric = ''m1'', Labels = [], DataPoint = \<lparr>Timestamp = 0, DataPoint.Value = 7\<rparr>\<rparr>] \<and>
   orderedPoints (snd (insertRows (\<lambda>s operation rows. (None, s)) (\<lambda>i. 1700)
     (snd (insertRows (\<lambda>s operation rows. (None, s)) (\<lambda>i. 1700)
          (newMemoryPartition (None :: unit wal option) 3600 Nanoseconds)
          [\<lparr>Metric = ''m1'', Labels = [], DataPoint = \<lparr>Timestamp = 100, DataPoint.Value = 0\<rparr>\<rparr>]))
     [\<lparr>Metric = ''m1'', Labels = [], DataPoint = \<lparr>Timestamp = 0, DataPoint.Value = 7\<rparr>\<rparr>])) ''m1'' =
   [\<lparr>Timestamp = 100, DataPoint.Value = 0\<rparr>] \<and>
   outOfOrderPointsOf (snd (insertRows (\<lambda>s operation rows. (None, s)) (\<lambda>i. 1700)
     (snd (insertRows (\<lambda>s operation rows. (None, s)) (\<lambda>i. 1700)
          (newMemoryPartition (None :: unit wal option) 3600 Nanoseconds)
          [\<lparr>Metric = ''m1'', Labels = [], DataPoint = \<lparr>Timestamp = 100, DataPoint.Value = 0\<rparr>\<rparr>]))
     [\<lparr>Metric = ''m1'', Labels = [], DataPoint = \<lparr>Timestamp = 0, DataPoint.Value = 7\<rparr>\<rparr>])) ''m1'' = []"
  by (simp add: memory_eval orderedPoints_def outOfOrderPointsOf_def)

subsection \<open>Flush: the merge of encodeAllPoints\<close>

lemma encodeRest_feed: "encodeRest enc e ps = feed enc e ps"
  by (induction ps arbitrary: e) (simp_all split: prod.splits option.splits)

lemma feed_cases:
  "(case feed enc e ps of (Some err, e') \<Rightarrow> (Some err, e') | (None, e') \<Rightarrow> (None, e')) =
   feed enc e ps"
  by (simp split: prod.splits option.splits)

lemma encode_loops_feed:
  "(case encodeMerge enc e ooos ps of
      (Some err, e1, ooos', ps') \<Rightarrow> (Some err, e1)
    | (None, e1, ooos', ps') \<Rightarrow>
        (case encodeRest enc e1 ooos' of
           (Some err, e2) \<Rightarrow> (Some err, e2)
         | (None, e2) \<Rightarrow> encodeRest enc e2 ps')) =
   feed enc e (mergeOrder ooos ps)"
proof (induction enc e ooos ps rule: encodeMerge.induct)
  case (1 enc e ooo ooos p ps)
  show ?case
  proof (cases "Timestamp ooo < Timestamp p")
    case True
    obtain r e' where r: "enc e ooo = (r, e')" by (cases "enc e ooo")
    show ?thesis
    proof (cases r)
      case None
      then show ?thesis using True r "1.IH"(1) [OF True r [symmetric]] by simp
    next
      case (Some err)
      then show ?thesis using True r by simp
    qed
  next
    case False
    obtain r e' where r: "enc e p = (r, e')" by (cases "enc e p")
    show ?thesis
    proof (cases r)
      case None
      then show ?thesis using False r "1.IH"(2) [OF False r [symmetric]] by simp
    next
      case (Some err)
      then show ?thesis using False r by simp
    qed
  qed
next
  case (2 enc e ps)
  show ?case by (simp add: encodeRest_feed)
next
  case (3 enc e v va)
  obtain r e' where "feed enc e (v # va) = (r, e')" by (cases "feed enc e (v # va)")
  then show ?case by (cases r) (simp_all add: encodeRest_feed del: feed.simps(2))
qed

lemma mset_mergeOrder: "mset (mergeOrder ooos ps) = mset ooos + mset ps"
  by (induction ooos ps rule: mergeOrder.induct) simp_all

lemma set_mergeOrder: "set (mergeOrder ooos ps) = set ooos \<union> set ps"
  by (induction ooos ps rule: mergeOrder.induct) auto

lemma sorted_mergeOrder:
  "sorted (map Timestamp ooos) \<Longrightarrow> sorted (map Timestamp ps) \<Longrightarrow>
   sorted (map Timestamp (mergeOrder ooos ps))"
  by (induction ooos ps rule: mergeOrder.induct) (auto simp add: set_mergeOrder)

lemma feed_all_succeed:
  "(\<forall>e' p. p \<in> set ps \<longrightarrow> fst (enc e' p) = None) \<Longrightarrow> fst (feed enc e ps) = None"
proof (induction ps arbitrary: e)
  case Nil
  show ?case by simp
next
  case (Cons p ps)
  obtain r e' where r: "enc e p = (r, e')" by (cases "enc e p")
  have "r = None" using Cons.prems r by (metis fst_conv list.set_intros(1))
  then show ?case using r Cons by simp
qed

lemma encodeAllPoints_feed:
  "(fst (encodeAllPoints enc e m), fst (snd (encodeAllPoints enc e m))) =
   feed enc e (mergeOrder (sortPoints (outOfOrderPoints m)) (points m))"
proof -
  have "(fst (encodeAllPoints enc e m), fst (snd (encodeAllPoints enc e m))) =
    (case encodeMerge enc e (sortPoints (outOfOrderPoints m)) (points m) of
      (Some err, e1, ooos', ps') \<Rightarrow> (Some err, e1)
    | (None, e1, ooos', ps') \<Rightarrow>
        (case encodeRest enc e1 ooos' of
           (Some err, e2) \<Rightarrow> (Some err, e2)
         | (None, e2) \<Rightarrow> encodeRest enc e2 ps'))"
    by (simp add: encodeAllPoints_def Let_def split: prod.splits option.splits)
  then show ?thesis by (simp only: encode_loops_feed)
qed


text \<open>
  Claim C9 (flush merge).  For a series whose ordered points are non-decreasing by
  timestamp, \<open>encodeAllPoints\<close> feeds the encoder a sequence that is a permutation of the
  ordered points together with the out-of-order points and that is non-decreasing by
  timestamp: \<open>encodePoint\<close> is called on its points in order, up to the first error.  When no
  call of \<open>encodePoint\<close> on these points fails, \<open>encodeAllPoints\<close> returns \<open>nil\<close>.
\<close>

theorem encodeAllPoints_merge:
  assumes "sorted (map Timestamp (points m))"
  shows "\<exists>fed. mset fed = mset (points m) + mset (outOfOrderPoints m) \<and>
           sorted (map Timestamp fed) \<and>
           (fst (encodeAllPoints enc e m), fst (snd (encodeAllPoints enc e m))) = feed enc e fed \<and>
           ((\<forall>e' p. p \<in> set fed \<longrightarrow> fst (enc e' p) = None) \<longrightarrow>
              fst (encodeAllPoints enc e m) = None)"
proof -
  define fed where "fed = mergeOrder (sortPoints (outOfOrderPoints m)) (points m)"
  have 1: "mset fed = mset (points m) + mset (outOfOrderPoints m)"
    by (simp add: fed_def mset_mergeOrder sortPoints_def)
  have 2: "sorted (map Timestamp fed)"
    unfolding fed_def by (rule sorted_mergeOrder) (simp_all add: sortPoints_def assms)
  have 3: "(fst (encodeAllPoints enc e m), fst (snd (encodeAllPoints enc e m))) = feed enc e fed"
    unfolding fed_def by (rule encodeAllPoints_feed)
  have 4: "fst (encodeAllPoints enc e m) = None"
    if "\<forall>e' p. p \<in> set fed \<longrightarrow> fst (enc e' p) = None"
    using feed_all_succeed [OF that, of e] 3 by (metis fst_conv)
  from 1 2 3 4 show ?thesis by blast
qed

theorem encodeAllPoints_merge_witness:
  "encodeAllPoints (\<lambda>log p. (None, log @ [Timestamp p])) []
     \<lparr>name = ''m1'', sizeM = 2, minTimestamp = 1, maxTimestamp = 5,
      points = [\<lparr>Timestamp = 1, DataPoint.Value = 0\<rparr>, \<lparr>Timestamp = 5, DataPoint.Value = 0\<rparr>],
      outOfOrderPoints = [\<lparr>Timestamp = 3, DataPoint.Value = 0\<rparr>, \<lparr>Timestamp = 2, DataPoint.Value = 0\<rparr>]\<rparr> =
   (None, [1, 2, 3, 5],
     \<lparr>name = ''m1'', sizeM = 2, minTimestamp = 1, maxTimestamp = 5,
      points = [\<lparr>Timestamp = 1, DataPoint.Value = 0\<rparr>, \<lparr>Timestamp = 5, DataPoint.Value = 0\<rparr>],
      outOfOrderPoints = [\<lparr>Timestamp = 2, DataPoint.Value = 0\<rparr>, \<lparr>Timestamp = 3, DataPoint.Value = 0\<rparr>]\<rparr>)"
proof -
  let ?mt = "\<lparr>name = ''m1'', sizeM = 2, minTimestamp = 1, maxTimestamp = 5,
      points = [\<lparr>Timestamp = 1, DataPoint.Value = 0\<rparr>, \<lparr>Timestamp = 5, DataPoint.Value = 0\<rparr>],
      outOfOrderPoints = [\<lparr>Timestamp = 3, DataPoint.Value = 0\<rparr>, \<lparr>Timestamp = 2, DataPoint.Value = 0\<rparr>]\<rparr>"
  have s: "sorted (map Timestamp (points ?mt))" by simp
  obtain fed where f: "mset fed = mset (points ?mt) + mset (outOfOrderPoints ?mt)"
    using encodeAllPoints_merge [OF s, of "\<lambda>log p. (None, log @ [Timestamp p])" "[]"] by blast
  from f show ?thesis
    by (simp add: encodeAllPoints_def sortPoints_def)
qed

section \<open>Properties of the partition list\<close>

lemma chain_unique: "chain h p as \<Longrightarrow> chain h p bs \<Longrightarrow> as = bs"
proof (induction as arbitrary: p bs)
  case Nil
  then show ?case by (cases bs) simp_all
next
  case (Cons a as)
  then show ?case by (cases bs) auto
qed

lemma chain_suffix: "chain h p (xs @ a # ys) \<Longrightarrow> chain h (nextNode (h a)) ys"
  by (induction xs arbitrary: p) simp_all

lemma chain_head_not_later:
  assumes "chain h (nextNode (h a)) as"
  shows "a \<notin> set as"
proof
  assume "a \<in> set as"
  then obtain xs ys where s: "as = xs @ a # ys" by (meson split_list)
  then have "chain h (nextNode (h a)) ys" using assms chain_suffix by blast
  then have "as = ys" using assms chain_unique by blast
  then show False using s by simp
qed

lemma chain_distinct: "chain h p as \<Longrightarrow> distinct as"
  by (induction as arbitrary: p) (auto dest: chain_head_not_later)

lemma chain_update_other:
  "a \<notin> set as \<Longrightarrow> chain (h(a := n)) p as = chain h p as"
  by (induction as arbitrary: p) auto

lemma chain_unlink:
  assumes "chain h p (xs @ pa # c # ys)"
  shows "chain (h(pa := (h pa)\<lparr>nextNode := nextNode (h c)\<rparr>)) p (xs @ pa # ys)"
  using assms
proof (induction xs arbitrary: p)
  case Nil
  then have d: "distinct (pa # c # ys)" using chain_distinct by fastforce
  have "chain h (nextNode (h c)) ys" using Nil by simp
  define h' where "h' = h(pa := (h pa)\<lparr>nextNode := nextNode (h c)\<rparr>)"
  have "chain h (nextNode (h c)) ys" using Nil by simp
  then have "chain h' (nextNode (h c)) ys"
    using d unfolding h'_def by (simp add: chain_update_other)
  moreover have "nextNode (h' pa) = nextNode (h c)" by (simp add: h'_def)
  moreover have "p = Some pa" using Nil by simp
  ultimately have "chain h' p ([] @ pa # ys)" by simp
  then show ?case unfolding h'_def .
next
  case (Cons x xs)
  then have "distinct (x # xs @ pa # c # ys)" using chain_distinct by fastforce
  then have "x \<noteq> pa" by auto
  then show ?case using Cons by simp
qed

lemma remove_find_on_chain:
  assumes "chain h (successor h it) (xs @ ys)"
    and "\<forall>a\<in>set xs. \<not> samePartitions minTs (val (h a)) target"
    and "ys = [] \<or> samePartitions minTs (val (h (hd ys))) target"
  shows "remove_find minTs h target prev it =
     Some (if ys = [] then None
           else Some (if xs = [] then prev else Some (last xs), hd ys, AtNode (hd ys)))"
  using assms
proof (induction xs arbitrary: prev it)
  case Nil
  show ?case
  proof (cases ys)
    case Nil
    then have "successor h it = None" using Nil.prems(1) by simp
    then have "iterator_next h it = (False, AtNil)"
      by (cases it) (simp_all add: successor_def iterator_next_def cursor_of_def)
    then show ?thesis using Nil by (subst remove_find.simps) simp
  next
    case (Cons c ys')
    then have "successor h it = Some c" using Nil.prems(1) by simp
    then have "iterator_next h it = (True, AtNode c)"
      by (cases it) (simp_all add: successor_def iterator_next_def cursor_of_def)
    then show ?thesis using Cons Nil.prems(3)
      by (subst remove_find.simps) (simp add: currentNode_def)
  qed
next
  case (Cons x xs)
  then have "successor h it = Some x" by simp
  then have n: "iterator_next h it = (True, AtNode x)"
    by (cases it) (simp_all add: successor_def iterator_next_def cursor_of_def)
  have s: "chain h (successor h (AtNode x)) (xs @ ys)"
    using Cons.prems(1) by (simp add: successor_def)
  have nm: "\<not> samePartitions minTs (val (h x)) target" using Cons.prems(2) by simp
  have "remove_find minTs h target prev it = remove_find minTs h target (Some x) (AtNode x)"
    using n nm by (subst remove_find.simps) (simp add: currentNode_def)
  also have "\<dots> = Some (if ys = [] then None
           else Some (if xs = [] then Some x else Some (last xs), hd ys, AtNode (hd ys)))"
    using Cons.IH [OF s _ Cons.prems(3), of "Some x"] Cons.prems(2) by simp
  finally show ?case by simp
qed

lemma remove_empty:
  assumes "numPartitions p \<le> 0"
  shows "remove minTs cleanP p target = Some (Some ErrEmptyPartition, p)"
  using assms by (simp add: remove_def partitionList_size_def)

lemma remove_not_found:
  assumes "chain (nodes p) (head p) as" "0 < numPartitions p"
    and "\<forall>a\<in>set as. \<not> samePartitions minTs (val (nodes p a)) target"
  shows "remove minTs cleanP p target = Some (Some ErrNotFound, p)"
proof -
  have "chain (nodes p) (successor (nodes p) (newIterator p)) (as @ [])"
    using assms(1) by (simp add: successor_def newIterator_def)
  from remove_find_on_chain [OF this assms(3), of None]
  have "remove_find minTs (nodes p) target None (newIterator p) = Some None" by simp
  then show ?thesis using assms(2) by (simp add: remove_def partitionList_size_def)
qed

lemma remove_found:
  assumes "chain (nodes p) (head p) (xs @ c # ys)" "0 < numPartitions p"
    and "\<forall>a\<in>set xs. \<not> samePartitions minTs (val (nodes p a)) target"
    and "samePartitions minTs (val (nodes p c)) target"
  shows "\<exists>p'. remove minTs cleanP p target =
             Some (map_option ErrCleanFailed (cleanP (val (nodes p c))), p') \<and>
           chain (nodes p') (head p') (xs @ ys) \<and>
           partitionsOf (nodes p') (xs @ ys) = partitionsOf (nodes p) (xs @ ys) \<and>
           numPartitions p' = numPartitions p - 1 \<and>
           cleanCalls p' = cleanCalls p @ [val (nodes p c)] \<and>
           tail p' = (if xs \<noteq> [] \<and> ys = [] then Some (last xs) else tail p)"
proof -
  let ?h = "nodes p"
  have "chain ?h (successor ?h (newIterator p)) (xs @ c # ys)"
    using assms(1) by (simp add: successor_def newIterator_def)
  from remove_find_on_chain [OF this assms(3), of None] assms(4)
  have f: "remove_find minTs ?h target None (newIterator p) =
      Some (Some (if xs = [] then None else Some (last xs), c, AtNode c))" by simp
  have cy: "chain ?h (nextNode (?h c)) ys" using assms(1) chain_suffix by blast
  have nx: "currentNode (snd (iterator_next ?h (AtNode c))) = nextNode (?h c)"
    by (simp add: iterator_next_def currentNode_def cursor_of_def split: option.splits)
  have d: "distinct (xs @ c # ys)" using assms(1) by (rule chain_distinct)
  show ?thesis
  proof (cases "xs = []")
    case True
    define p' where "p' = (setHead p (nextNode (?h c)))\<lparr>numPartitions := numPartitions p - 1,
        cleanCalls := cleanCalls p @ [val (?h c)]\<rparr>"
    have r: "remove minTs cleanP p target =
        Some (map_option ErrCleanFailed (cleanP (val (?h c))), p')"
      using f assms(2) True nx
      by (simp add: remove_def partitionList_size_def Let_def p'_def setHead_def
          split: option.splits)
    have "chain (nodes p') (head p') (xs @ ys)"
      using cy True by (simp add: p'_def setHead_def)
    moreover have "partitionsOf (nodes p') (xs @ ys) = partitionsOf ?h (xs @ ys)"
      by (simp add: p'_def setHead_def)
    moreover have "numPartitions p' = numPartitions p - 1"
      "cleanCalls p' = cleanCalls p @ [val (?h c)]"
      "tail p' = (if xs \<noteq> [] \<and> ys = [] then Some (last xs) else tail p)"
      using True by (simp_all add: p'_def setHead_def)
    ultimately show ?thesis using r by blast
  next
    case False
    define pa where "pa = last xs"
    define xs' where "xs' = butlast xs"
    have xs: "xs = xs' @ [pa]" using False by (simp add: pa_def xs'_def)
    define h' where "h' = ?h(pa := (?h pa)\<lparr>nextNode := nextNode (?h c)\<rparr>)"
    have ch: "chain h' (head p) (xs @ ys)"
      using chain_unlink [of ?h "head p" xs' pa c ys] assms(1) xs by (simp add: h'_def)
    have vals: "val (h' b) = val (?h b)" for b by (simp add: h'_def)
    have pac: "pa \<noteq> c" using d xs by auto
    define p' where "p' = (if nextNode (?h c) = None
        then p\<lparr>nodes := h', tail := Some pa, headCache := None,
               numPartitions := numPartitions p - 1,
               cleanCalls := cleanCalls p @ [val (?h c)]\<rparr>
        else p\<lparr>nodes := h', numPartitions := numPartitions p - 1,
               cleanCalls := cleanCalls p @ [val (?h c)]\<rparr>)"
    have r: "remove minTs cleanP p target =
        Some (map_option ErrCleanFailed (cleanP (val (?h c))), p')"
      using f assms(2) False nx pac
      by (auto simp add: remove_def partitionList_size_def Let_def p'_def setNext_def
          setTail_def h'_def pa_def split: option.splits)
    have yn: "(ys = []) = (nextNode (?h c) = None)" using cy by (cases ys) auto
    have "chain (nodes p') (head p') (xs @ ys)" using ch by (simp add: p'_def)
    moreover have "partitionsOf (nodes p') (xs @ ys) = partitionsOf ?h (xs @ ys)"
      using vals by (simp add: p'_def partitionsOf_def)
    moreover have "numPartitions p' = numPartitions p - 1"
      "cleanCalls p' = cleanCalls p @ [val (?h c)]"
      by (simp_all add: p'_def)
    moreover have "tail p' = (if xs \<noteq> [] \<and> ys = [] then Some (last xs) else tail p)"
      using False yn by (simp add: p'_def pa_def)
    ultimately show ?thesis using r by blast
  qed
qed

text \<open>
  Claim C8 (partition-list remove).  The error cases and the unlinking are as the claim says
  (lemmas \<open>remove_empty\<close>, \<open>remove_not_found\<close> and \<open>remove_found\<close>), but the tail is not
  updated when the removed node is the only node of the list: the switch of \<open>remove\<close> has
  no case for \<open>prev == nil\<close> and \<open>next == nil\<close> that resets the tail.  Starting from
  \<open>newPartitionList\<close>, insert the partitions with the min timestamps 10 and 20, remove the
  first one (which sets the tail to the node of the second one) and then the second one:
  both calls return \<open>nil\<close>, the list is empty (size 0, head \<open>nil\<close>), and the tail still points
  to the node that has been removed and cleaned.
\<close>

theorem remove_last_node_keeps_tail:
  "Option.bind
     (remove id (\<lambda>p. None)
        (insert_partition
           (insert_partition (newPartitionList (\<lambda>a. \<lparr>val = 0, nextNode = None\<rparr>)) 1 10) 2 20)
        10)
     (\<lambda>(err1, l1).
        map_option
          (\<lambda>(err2, l2). (err1, tail l1, err2, partitionList_size l2, head l2, tail l2,
             cleanCalls l2))
          (remove id (\<lambda>p. None) l1 (20 :: int))) =
   Some (None, Some 2, None, 0, None, Some 2, [10, 20])"
  by (simp add: remove_def remove_find.simps iterator_next_def cursor_of_def currentNode_def
      newIterator_def insert_partition_def newPartitionList_def setHead_def setTail_def
      setNext_def samePartitions_def partitionList_size_def Let_def)

section \<open>Properties of the bit stream\<close>

subsection \<open>Words as numbers\<close>

lemma nat_or_add:
  fixes a b :: nat
  assumes "2 ^ c dvd a" "b < 2 ^ c"
  shows "a OR b = a + b"
proof -
  obtain k where k: "a = push_bit c k" using assms(1) by (auto simp: push_bit_eq_mult dvd_def mult.commute)
  have b: "take_bit c b = b" using assms(2) by (simp add: take_bit_nat_eq_self)
  have "a AND b = 0"
  proof (rule bit_eqI)
    fix n
    have "bit b n \<Longrightarrow> n < c" using b by (metis bit_take_bit_iff)
    then show "bit (a AND b) n = bit (0::nat) n"
      by (auto simp add: bit_and_iff k bit_push_bit_iff)
  qed
  then show ?thesis by (simp add: disjunctive_add_eq_or)
qed

lemma unat_or_add:
  fixes a b :: "'a::len word"
  assumes "2 ^ c dvd unat a" "unat b < 2 ^ c"
  shows "unat (a OR b) = unat a + unat b"
  using nat_or_add [OF assms] by (simp add: unsigned_or_eq)

lemma unat_push_bit: "unat (push_bit n (w :: 'a::len word)) = (unat w * 2 ^ n) mod 2 ^ LENGTH('a)"
  by (simp add: unsigned_push_bit_eq take_bit_nat_def push_bit_nat_def)

lemma unat_drop_bit: "unat (drop_bit n (w :: 'a::len word)) = unat w div 2 ^ n"
  by (simp add: unat_drop_bit_eq drop_bit_nat_def)

lemma bitmask_eq: "push_bit n (1 :: 'a::len word) - 1 = mask n"
  by (simp add: mask_eq_exp_minus_1)

lemma unat_and_bitmask:
  "unat ((w :: 'a::len word) AND (push_bit n 1 - 1)) = take_bit n (unat w)"
  by (simp only: bitmask_eq flip: take_bit_eq_mask) (simp add: unsigned_take_bit_eq)

lemma unat_byte_up: "unat (ucast (x :: 8 word) :: 64 word) = unat x"
proof -
  have "unat x < 2 ^ LENGTH(8)" by (rule unsigned_less)
  then have "unat x < 2 ^ 64" by simp
  then show ?thesis by (simp add: unsigned_ucast_eq take_bit_nat_eq_self)
qed

lemma unat_byte_lt: "unat (x :: 8 word) < 256"
proof -
  have "unat x < 2 ^ LENGTH(8)" by (rule unsigned_less)
  then show ?thesis by simp
qed

lemma unat_u64_lt: "unat (x :: 64 word) < 2 ^ 64"
proof -
  have "unat x < 2 ^ LENGTH(64)" by (rule unsigned_less)
  then show ?thesis by simp
qed

subsection \<open>The writer\<close>

lemma sval_append: "sval (xs @ ys) = sval xs * 2 ^ (8 * length ys) + sval ys"
  by (induction xs) (simp_all add: power_add algebra_simps)

lemma sval_snoc: "sval (xs @ [x]) = sval xs * 256 + unat x"
  by (simp add: sval_append)

lemma sval_less: "sval xs < 2 ^ (8 * length xs)"
proof (induction xs)
  case Nil
  show ?case by simp
next
  case (Cons x xs)
  have "unat x * 2 ^ (8 * length xs) + sval xs < (unat x + 1) * 2 ^ (8 * length xs)"
    using Cons by (simp add: algebra_simps)
  also have "\<dots> \<le> 256 * 2 ^ (8 * length xs)"
    using unat_byte_lt [of x] by (intro mult_right_mono) simp_all
  finally show ?case by (simp add: power_add)
qed

text \<open>The first step of \<open>writeBit\<close> and of \<open>writeByte\<close>: a new byte when the last one is full.\<close>

lemma written_room:
  assumes "written b w t"
  defines "b1 \<equiv> (if count b = 0 then b\<lparr>bstream.stream := bstream.stream b @ [0], count := 8\<rparr> else b)"
  shows "written b1 w t \<and> 1 \<le> unat (count b1) \<and>
         (\<exists>xs l. bstream.stream b1 = xs @ [l] \<and> 2 ^ unat (count b1) dvd unat l)"
proof -
  have w1: "written b1 w t"
  proof (cases "count b = 0")
    case True
    then show ?thesis using assms(1) by (simp add: b1_def written_def sval_snoc)
  next
    case False
    then show ?thesis using assms(1) by (simp add: b1_def)
  qed
  have c1: "1 \<le> unat (count b1)"
  proof (cases "count b = 0")
    case True
    then show ?thesis by (simp add: b1_def)
  next
    case False
    then have "unat (count b) \<noteq> 0" by (simp add: unsigned_eq_0_iff)
    then show ?thesis using False by (simp add: b1_def)
  qed
  have "bstream.stream b1 \<noteq> []" using w1 c1 by (auto simp: written_def)
  then obtain xs l where s: "bstream.stream b1 = xs @ [l]"
    by (metis append_butlast_last_id)
  have "sval xs * 256 + unat l = w * 2 ^ unat (count b1)"
    using w1 s by (simp add: written_def sval_snoc)
  moreover have "(2::nat) ^ unat (count b1) dvd 256"
  proof -
    have "(2::nat) ^ unat (count b1) dvd 2 ^ 8"
      using w1 by (intro le_imp_power_dvd) (simp add: written_def)
    then show ?thesis by simp
  qed
  ultimately have "2 ^ unat (count b1) dvd unat l"
    by (metis dvd_add_right_iff dvd_mult dvd_triv_right)
  then show ?thesis using w1 c1 s by blast
qed

lemma unat_count_pred:
  fixes c :: "8 word"
  assumes "1 \<le> unat c"
  shows "unat (c - 1) = unat c - 1"
proof -
  have "1 \<le> c" using assms by (simp add: word_le_nat_alt)
  then show ?thesis by (simp add: unat_sub)
qed

lemma unat_count_compl:
  fixes c :: "8 word"
  assumes "unat c \<le> 8"
  shows "unat (8 - c) = 8 - unat c"
proof -
  have "c \<le> 8" using assms by (simp add: word_le_nat_alt)
  then show ?thesis by (simp add: unat_sub)
qed

lemma writeBit_written:
  assumes "written b w t"
  shows "\<exists>b'. writeBit b x = Some b' \<and> written b' (2 * w + of_bool x) (t + 1)"
proof -
  define b1 where "b1 = (if count b = 0 then b\<lparr>bstream.stream := bstream.stream b @ [0], count := 8\<rparr> else b)"
  define c where "c = unat (count b1)"
  from written_room [OF assms] obtain xs l where
    w1: "written b1 w t" and c1: "1 \<le> c" and s: "bstream.stream b1 = xs @ [l]"
    and d: "2 ^ c dvd unat l"
    unfolding b1_def [symmetric] c_def by blast
  have c8: "c \<le> 8" using w1 by (simp add: written_def c_def)
  have len: "8 * (length xs + 1) = t + c" and sv: "sval xs * 256 + unat l = w * 2 ^ c"
    using w1 s by (simp_all add: written_def c_def sval_snoc)
  have cp: "unat (count b1 - 1) = c - 1" using c1 unfolding c_def by (rule unat_count_pred)
  have i: "nat (int (length (bstream.stream b1)) - 1) = length xs" using s by simp
  have pw: "(2::nat) ^ c = 2 * 2 ^ (c - 1)" using c1 by (cases c) simp_all
  show ?thesis
  proof (cases x)
    case False
    have "writeBit b x = Some (b1\<lparr>count := count b1 - 1\<rparr>)"
      using False by (simp add: writeBit_def b1_def Let_def)
    moreover have "written (b1\<lparr>count := count b1 - 1\<rparr>) (2 * w + of_bool x) (t + 1)"
    proof -
      have "sval (xs @ [l]) = 2 * w * 2 ^ (c - 1)"
        using sv pw by (simp add: sval_snoc)
      moreover have "c - 1 \<le> 8" "8 * length (xs @ [l]) = t + 1 + (c - 1)"
        using c1 c8 len by simp_all
      ultimately show ?thesis
        using False cp s by (simp add: written_def)
    qed
    ultimately show ?thesis by blast
  next
    case True
    define l' where "l' = l OR push_bit (c - 1) 1"
    have p: "unat (push_bit (c - 1) (1 :: 8 word)) = 2 ^ (c - 1)"
    proof -
      have "(2::nat) ^ (c - 1) < 2 ^ 8" using c1 c8 by (intro power_strict_increasing) simp_all
      moreover have "unat (push_bit (c - 1) (1 :: 8 word)) =
          (unat (1 :: 8 word) * 2 ^ (c - 1)) mod 2 ^ LENGTH(8)"
        by (rule unat_push_bit)
      ultimately show ?thesis by simp
    qed
    have "unat (push_bit (c - 1) (1 :: 8 word)) < 2 ^ c" using p c1 by simp
    from unat_or_add [OF d this] have ul: "unat l' = unat l + 2 ^ (c - 1)"
      using p by (simp add: l'_def)
    define b' where "b' = b1\<lparr>bstream.stream := xs @ [l'], count := count b1 - 1\<rparr>"
    have "writeBit b x = Some b'"
      using True s cp i unfolding writeBit_def b1_def [symmetric] Let_def b'_def l'_def
      by (simp add: nth_append)
    moreover have "written b' (2 * w + of_bool x) (t + 1)"
    proof -
      have "sval (xs @ [l']) = (2 * w + 1) * 2 ^ (c - 1)"
        using sv ul pw by (simp add: sval_snoc algebra_simps)
      moreover have "c - 1 \<le> 8" "8 * length (xs @ [l']) = t + 1 + (c - 1)"
        using c1 c8 len by simp_all
      ultimately show ?thesis
        using True cp by (simp add: written_def b'_def)
    qed
    ultimately show ?thesis by blast
  qed
qed

lemma shift_byte_split:
  fixes y c :: nat
  assumes "c \<le> 8"
  shows "(y div 2 ^ (8 - c)) * 256 + (y * 2 ^ c) mod 256 = y * 2 ^ c"
proof -
  have e: "(256::nat) = 2 ^ (8 - c) * 2 ^ c"
    using assms by (simp flip: power_add)
  have "(y * 2 ^ c) div 256 = y div 2 ^ (8 - c)"
    unfolding e by simp
  then show ?thesis using div_mult_mod_eq [of "y * 2 ^ c" 256] by simp
qed

lemma writeByte_written:
  assumes "written b w t"
  shows "\<exists>b'. writeByte b byt = Some b' \<and> written b' (w * 256 + unat byt) (t + 8)"
proof -
  define b1 where "b1 = (if count b = 0 then b\<lparr>bstream.stream := bstream.stream b @ [0], count := 8\<rparr> else b)"
  define c where "c = unat (count b1)"
  from written_room [OF assms] obtain xs l where
    w1: "written b1 w t" and c1: "1 \<le> c" and s: "bstream.stream b1 = xs @ [l]"
    and d: "2 ^ c dvd unat l"
    unfolding b1_def [symmetric] c_def by blast
  have c8: "c \<le> 8" using w1 by (simp add: written_def c_def)
  have len: "8 * (length xs + 1) = t + c" and sv: "sval xs * 256 + unat l = w * 2 ^ c"
    using w1 s by (simp_all add: written_def c_def sval_snoc)
  have cc: "unat (8 - count b1) = 8 - c" using c8 unfolding c_def by (rule unat_count_compl)
  have i: "nat (int (length (bstream.stream b1)) - 1) = length xs"
     "nat (int (length (bstream.stream b1)) - 1 + 1) = length xs + 1" using s by simp_all
  define l' where "l' = l OR drop_bit (8 - c) byt"
  define z where "z = push_bit c byt"
  have "unat (drop_bit (8 - c) byt) < 2 ^ c"
  proof -
    have "unat byt < 2 ^ (8 - c) * 2 ^ c"
      using unat_byte_lt [of byt] c8 by (simp flip: power_add)
    then show ?thesis by (simp add: unat_drop_bit less_mult_imp_div_less mult.commute)
  qed
  from unat_or_add [OF d this] have ul: "unat l' = unat l + unat byt div 2 ^ (8 - c)"
    by (simp add: l'_def unat_drop_bit)
  have uz: "unat z = (unat byt * 2 ^ c) mod 256" by (simp add: z_def unat_push_bit)
  define b' where "b' = b1\<lparr>bstream.stream := xs @ [l', z]\<rparr>"
  have "writeByte b byt = Some b'"
    using s cc i unfolding writeByte_def b1_def [symmetric] Let_def b'_def l'_def z_def c_def
    by (simp add: nth_append list_update_append)
  moreover have "written b' (w * 256 + unat byt) (t + 8)"
  proof -
    have "sval (xs @ [l', z]) = (sval xs * 256 + unat l') * 256 + unat z"
      using sval_snoc [of "xs @ [l']" z] by (simp add: sval_snoc)
    also have "\<dots> = w * 2 ^ c * 256 + ((unat byt div 2 ^ (8 - c)) * 256 + (unat byt * 2 ^ c) mod 256)"
      using sv ul uz by (simp add: algebra_simps)
    also have "\<dots> = (w * 256 + unat byt) * 2 ^ c"
      using shift_byte_split [OF c8, of "unat byt"] by (simp add: algebra_simps)
    finally show ?thesis using c8 len by (simp add: written_def b'_def c_def)
  qed
  ultimately show ?thesis by blast
qed

text \<open>
  The loops of \<open>writeBits\<close> keep the bits that are still to be written at the top of \<open>u\<close>:
  \<open>u\<close> is \<open>r\<close>, a number of \<open>n\<close> bits, shifted to the left by \<open>64 - n\<close>.
\<close>

lemma top_chunk:
  fixes r n k :: nat
  assumes "k \<le> n" "n \<le> 64"
  shows "(r * 2 ^ (64 - n)) div 2 ^ (64 - k) = r div 2 ^ (n - k)"
proof -
  have "(2::nat) ^ (64 - k) = 2 ^ (64 - n) * 2 ^ (n - k)"
    using assms by (simp flip: power_add)
  then show ?thesis by simp
qed

lemma shift_chunk:
  fixes r n k :: nat
  assumes "k \<le> n" "n \<le> 64"
  shows "(r * 2 ^ (64 - n) * 2 ^ k) mod 2 ^ 64 = (r mod 2 ^ (n - k)) * 2 ^ (64 - (n - k))"
proof -
  have 1: "r * 2 ^ (64 - n) * 2 ^ k = r * 2 ^ (64 - (n - k))"
    using assms by (simp add: mult.assoc flip: power_add)
  have 2: "(2::nat) ^ 64 = 2 ^ (n - k) * 2 ^ (64 - (n - k))"
    using assms by (simp flip: power_add)
  show ?thesis unfolding 1 by (subst 2) simp
qed

lemma writeBits_bytes_written:
  assumes "written b w t" "0 \<le> nbits" "nbits \<le> 64"
    and "unat u = r * 2 ^ (64 - nat nbits)" "r < 2 ^ nat nbits"
  shows "\<exists>b' u' nbits' w' t' r'.
           writeBits_bytes b u nbits = Some (b', u', nbits') \<and> 0 \<le> nbits' \<and> nbits' < 8 \<and>
           unat u' = r' * 2 ^ (64 - nat nbits') \<and> r' < 2 ^ nat nbits' \<and>
           written b' w' t' \<and>
           w' * 2 ^ nat nbits' + r' = w * 2 ^ nat nbits + r \<and>
           t' + nat nbits' = t + nat nbits"
  using assms
proof (induction b u nbits arbitrary: w t r rule: writeBits_bytes.induct)
  case (1 b u nbits)
  define n where "n = nat nbits"
  have n64: "n \<le> 64" using "1.prems" by (simp add: n_def)
  show ?case
  proof (cases "nbits \<ge> 8")
    case False
    then have "writeBits_bytes b u nbits = Some (b, u, nbits)"
      by (subst writeBits_bytes.simps) simp
    then show ?thesis using "1.prems" False by force
  next
    case True
    then have n8: "8 \<le> n" by (simp add: n_def)
    define byt :: "8 word" where "byt = ucast (drop_bit 56 u)"
    have ub: "unat byt = r div 2 ^ (n - 8)"
    proof -
      have "unat u div 2 ^ 56 = r div 2 ^ (n - 8)"
        using top_chunk [OF n8 n64, of r] "1.prems"(4) by (simp add: n_def)
      moreover have "unat u div 2 ^ 56 < 256"
        using unat_u64_lt [of u] by (simp add: less_mult_imp_div_less)
      ultimately show ?thesis
        by (simp add: byt_def unsigned_ucast_eq unat_drop_bit take_bit_nat_eq_self)
    qed
    obtain b1 where b1: "writeByte b byt = Some b1" "written b1 (w * 256 + unat byt) (t + 8)"
      using writeByte_written [OF "1.prems"(1), of byt] by blast
    have u1: "unat (push_bit 8 u) = (r mod 2 ^ (n - 8)) * 2 ^ (64 - nat (nbits - 8))"
    proof -
      have "nat (nbits - 8) = n - 8" using True by (simp add: n_def)
      then show ?thesis
        using shift_chunk [OF n8 n64, of r] "1.prems"(4) by (simp add: unat_push_bit n_def)
    qed
    have r1: "r mod 2 ^ (n - 8) < 2 ^ nat (nbits - 8)"
    proof -
      have "nat (nbits - 8) = n - 8" using True by (simp add: n_def)
      then show ?thesis by simp
    qed
    have "0 \<le> nbits - 8" "nbits - 8 \<le> 64" using True "1.prems" by simp_all
    from "1.IH" [OF True b1(1) [unfolded byt_def] b1(2) this u1 r1]
    obtain b' u' nbits' w' t' r' where
      rec: "writeBits_bytes b1 (push_bit 8 u) (nbits - 8) = Some (b', u', nbits')"
      and r: "0 \<le> nbits'" "nbits' < 8" "unat u' = r' * 2 ^ (64 - nat nbits')"
        "r' < 2 ^ nat nbits'" "written b' w' t'"
      and e: "w' * 2 ^ nat nbits' + r' =
          (w * 256 + unat byt) * 2 ^ nat (nbits - 8) + r mod 2 ^ (n - 8)"
        "t' + nat nbits' = t + 8 + nat (nbits - 8)"
      by blast
    have "writeBits_bytes b u nbits = Some (b', u', nbits')"
      using True b1(1) rec by (subst writeBits_bytes.simps) (simp add: byt_def)
    moreover have "w' * 2 ^ nat nbits' + r' = w * 2 ^ nat nbits + r"
    proof -
      have m: "nat (nbits - 8) = n - 8" using True by (simp add: n_def)
      have p: "(2::nat) ^ n = 256 * 2 ^ (n - 8)"
      proof -
        have "(2::nat) ^ n = 2 ^ (8 + (n - 8))" using n8 by simp
        also have "\<dots> = 2 ^ 8 * 2 ^ (n - 8)" by (rule power_add)
        finally show ?thesis by simp
      qed
      have "w' * 2 ^ nat nbits' + r' =
          w * 256 * 2 ^ (n - 8) + (r div 2 ^ (n - 8) * 2 ^ (n - 8) + r mod 2 ^ (n - 8))"
        using e(1) ub m by (simp add: algebra_simps)
      also have "\<dots> = w * 256 * 2 ^ (n - 8) + r"
        by (simp only: div_mult_mod_eq)
      also have "\<dots> = w * 2 ^ n + r" by (simp only: p mult.assoc)
      finally show ?thesis by (simp add: n_def)
    qed
    moreover have "t' + nat nbits' = t + nat nbits" using e(2) True by simp
    ultimately show ?thesis using r by blast
  qed
qed

lemma writeBits_bits_written:
  assumes "written b w t" "0 \<le> nbits" "nbits \<le> 64"
    and "unat u = r * 2 ^ (64 - nat nbits)" "r < 2 ^ nat nbits"
  shows "\<exists>b'. writeBits_bits b u nbits = Some b' \<and>
              written b' (w * 2 ^ nat nbits + r) (t + nat nbits)"
  using assms
proof (induction b u nbits arbitrary: w t r rule: writeBits_bits.induct)
  case (1 b u nbits)
  define n where "n = nat nbits"
  have n64: "n \<le> 64" using "1.prems" by (simp add: n_def)
  show ?case
  proof (cases "nbits > 0")
    case False
    then have "writeBits_bits b u nbits = Some b"
      by (subst writeBits_bits.simps) simp
    then show ?thesis using "1.prems" False by simp
  next
    case True
    then have n1: "1 \<le> n" by (simp add: n_def)
    have m: "nat (nbits - 1) = n - 1" using True by (simp add: n_def)
    define x where "x = (drop_bit 63 u = 1)"
    have p: "(2::nat) ^ n = 2 * 2 ^ (n - 1)" using n1 by (cases n) simp_all
    have top: "unat (drop_bit 63 u) = r div 2 ^ (n - 1)"
      using top_chunk [OF n1 n64, of r] "1.prems"(4) by (simp add: n_def unat_drop_bit)
    have lt2: "r div 2 ^ (n - 1) < 2"
      using "1.prems"(5) p by (simp add: n_def less_mult_imp_div_less mult.commute)
    have "x \<longleftrightarrow> unat (drop_bit 63 u) = 1"
      unfolding x_def by (metis unsigned_1 word_unat_eq_iff)
    then have ob: "of_bool x = r div 2 ^ (n - 1)" using top lt2 by (cases x) auto
    obtain b1 where b1: "writeBit b x = Some b1" "written b1 (2 * w + of_bool x) (t + 1)"
      using writeBit_written [OF "1.prems"(1), of x] by blast
    have u1: "unat (push_bit 1 u) = (r mod 2 ^ (n - 1)) * 2 ^ (64 - nat (nbits - 1))"
    proof -
      have "unat (push_bit 1 u) = (unat u * 2 ^ 1) mod 2 ^ LENGTH(64)"
        by (rule unat_push_bit)
      also have "\<dots> = (r * 2 ^ (64 - n) * 2 ^ 1) mod 2 ^ 64"
        using "1.prems"(4) by (simp add: n_def)
      also have "\<dots> = (r mod 2 ^ (n - 1)) * 2 ^ (64 - (n - 1))"
        by (rule shift_chunk [OF n1 n64])
      finally show ?thesis by (simp only: m)
    qed
    have r1: "r mod 2 ^ (n - 1) < 2 ^ nat (nbits - 1)" using m by simp
    have "0 \<le> nbits - 1" "nbits - 1 \<le> 64" using True "1.prems" by simp_all
    from "1.IH" [OF True b1(1) [unfolded x_def] b1(2) this u1 r1]
    obtain b' where
      rec: "writeBits_bits b1 (push_bit 1 u) (nbits - 1) = Some b'"
      and r: "written b' ((2 * w + of_bool x) * 2 ^ nat (nbits - 1) + r mod 2 ^ (n - 1))
               (t + 1 + nat (nbits - 1))"
      by blast
    have "writeBits_bits b u nbits = Some b'"
      using True b1(1) rec by (subst writeBits_bits.simps) (simp add: x_def)
    moreover have "(2 * w + of_bool x) * 2 ^ nat (nbits - 1) + r mod 2 ^ (n - 1) =
        w * 2 ^ nat nbits + r"
    proof -
      have "(2 * w + of_bool x) * 2 ^ nat (nbits - 1) + r mod 2 ^ (n - 1) =
          w * (2 * 2 ^ (n - 1)) + (r div 2 ^ (n - 1) * 2 ^ (n - 1) + r mod 2 ^ (n - 1))"
        unfolding ob m by (simp add: algebra_simps)
      also have "\<dots> = w * (2 * 2 ^ (n - 1)) + r"
        by (simp only: div_mult_mod_eq)
      also have "\<dots> = w * 2 ^ n + r" by (simp only: p)
      finally show ?thesis by (simp add: n_def)
    qed
    moreover have "t + 1 + nat (nbits - 1) = t + nat nbits" using True by simp
    ultimately have "writeBits_bits b u nbits = Some b'"
      "written b' (w * 2 ^ nat nbits + r) (t + nat nbits)"
      using r by (simp_all only:)
    then show ?thesis by blast
  qed
qed

lemma writeBits_written:
  assumes "written b w t" "n \<le> 64" "unat u < 2 ^ n"
  shows "\<exists>b'. writeBits b u (int n) = Some b' \<and> written b' (w * 2 ^ n + unat u) (t + n)"
proof -
  define u0 where "u0 = push_bit (nat ((64 - int n) mod 2 ^ 64)) u"
  have sh: "nat ((64 - int n) mod 2 ^ 64) = 64 - n"
    using assms(2) by (simp add: nat_diff_distrib)
  have "unat u * 2 ^ (64 - n) < 2 ^ n * 2 ^ (64 - n)"
    using assms(3) by simp
  also have "\<dots> = 2 ^ 64" using assms(2) by (simp flip: power_add)
  finally have lt: "unat u * 2 ^ (64 - n) < 2 ^ 64" .
  have "unat u0 = (unat u * 2 ^ (64 - n)) mod 2 ^ LENGTH(64)"
    unfolding u0_def sh by (rule unat_push_bit)
  then have u0: "unat u0 = unat u * 2 ^ (64 - nat (int n))"
    using lt by simp
  have pre: "0 \<le> int n" "int n \<le> 64" "unat u < 2 ^ nat (int n)"
    using assms by simp_all
  from writeBits_bytes_written [OF assms(1) pre(1,2) u0 pre(3)]
  obtain b1 u1 nbits1 w1 t1 r1 where
    l1: "writeBits_bytes b u0 (int n) = Some (b1, u1, nbits1)"
    and q: "0 \<le> nbits1" "nbits1 < 8" "unat u1 = r1 * 2 ^ (64 - nat nbits1)"
      "r1 < 2 ^ nat nbits1" "written b1 w1 t1"
    and e: "w1 * 2 ^ nat nbits1 + r1 = w * 2 ^ nat (int n) + unat u"
      "t1 + nat nbits1 = t + nat (int n)"
    by blast
  have "nbits1 \<le> 64" using q(2) by simp
  from writeBits_bits_written [OF q(5) q(1) this q(3) q(4)]
  obtain b' where l2: "writeBits_bits b1 u1 nbits1 = Some b'"
    and w': "written b' (w1 * 2 ^ nat nbits1 + r1) (t1 + nat nbits1)"
    by blast
  have "writeBits b u (int n) = Some b'"
    using l1 l2 by (simp add: writeBits_def u0_def)
  then show ?thesis using w' e by simp
qed

lemma div_shifted:
  fixes s x m d :: nat
  assumes "x < 2 ^ m"
  shows "(s * 2 ^ m + x) div 2 ^ (m + d) = s div 2 ^ d"
proof -
  have "(s * 2 ^ m + x) div 2 ^ m = s" using assms by simp
  then show ?thesis by (simp add: power_add div_mult2_eq)
qed

lemma peek_extend:
  assumes "p + n \<le> l" "x < 2 ^ m"
  shows "peek (s * 2 ^ m + x) (l + m) p n = peek s l p n"
proof -
  have "l + m - p - n = m + (l - p - n)" using assms(1) by simp
  then show ?thesis using div_shifted [OF assms(2)] by (simp add: peek_def)
qed

lemma encodes_extend:
  assumes "encodes s l p ws" "x < 2 ^ m"
  shows "encodes (s * 2 ^ m + x) (l + m) p ws"
  using assms(1)
proof (induction ws arbitrary: p)
  case Nil
  show ?case by simp
next
  case (Cons a ws)
  obtain u n where a: "a = (u, n)" by (cases a)
  show ?case using Cons assms(2) by (simp add: a peek_extend)
qed

lemma writeSeq_written:
  assumes "written b w t" "\<forall>(u, n) \<in> set ws. n \<le> 64 \<and> unat u < 2 ^ n"
  shows "\<exists>b' w' t'. writeSeq b ws = Some b' \<and> written b' w' t' \<and>
           t \<le> t' \<and> w' div 2 ^ (t' - t) = w \<and> encodes w' t' t ws"
  using assms
proof (induction ws arbitrary: b w t)
  case Nil
  have "writeSeq b [] = Some b \<and> written b w t \<and> t \<le> t \<and> w div 2 ^ (t - t) = w \<and>
      encodes w t t []"
    using Nil by simp
  then show ?case by blast
next
  case (Cons a ws)
  obtain u n where a: "a = (u, n)" by (cases a)
  have n: "n \<le> 64" "unat u < 2 ^ n" using Cons.prems(2) by (simp_all add: a)
  obtain b1 where b1: "writeBits b u (int n) = Some b1"
    "written b1 (w * 2 ^ n + unat u) (t + n)"
    using writeBits_written [OF Cons.prems(1) n] by blast
  have "\<forall>(u, n) \<in> set ws. n \<le> 64 \<and> unat u < 2 ^ n" using Cons.prems(2) by simp
  from Cons.IH [OF b1(2) this] obtain b' w' t' where
    r: "writeSeq b1 ws = Some b'" "written b' w' t'" "t + n \<le> t'"
      "w' div 2 ^ (t' - (t + n)) = w * 2 ^ n + unat u" "encodes w' t' (t + n) ws"
    by blast
  have 1: "writeSeq b (a # ws) = Some b'" using b1(1) r(1) by (simp add: a)
  have 2: "t \<le> t'" using r(3) by simp
  have e: "t' - t = (t' - (t + n)) + n" using r(3) by simp
  have 3: "w' div 2 ^ (t' - t) = w"
  proof -
    have "w' div 2 ^ (t' - t) = (w' div 2 ^ (t' - (t + n))) div 2 ^ n"
      unfolding e by (simp only: power_add div_mult2_eq)
    then show ?thesis using r(4) n(2) by simp
  qed
  have 4: "peek w' t' t n = unat u"
  proof -
    have "t' - t - n = t' - (t + n)" by simp
    then show ?thesis using r(4) n(2) by (simp add: peek_def)
  qed
  have "encodes w' t' t (a # ws)" using r(3,5) 4 by (simp add: a)
  then show ?case using 1 r(2) 2 3 by blast
qed

lemma writeSeq_encodes:
  assumes "\<forall>(u, n) \<in> set ws. n \<le> 64 \<and> unat u < 2 ^ n"
  shows "\<exists>b. writeSeq emptyBStream ws = Some b \<and>
             encodes (sval (bytes b)) (8 * length (bytes b)) 0 ws"
proof -
  have "written emptyBStream 0 0" by (simp add: written_def emptyBStream_def)
  from writeSeq_written [OF this assms] obtain b w t where
    r: "writeSeq emptyBStream ws = Some b" "written b w t" "encodes w t 0 ws"
    by blast
  have "encodes (w * 2 ^ unat (count b) + 0) (t + unat (count b)) 0 ws"
    using r(3) by (rule encodes_extend) simp
  then have "encodes (sval (bytes b)) (8 * length (bytes b)) 0 ws"
    using r(2) by (simp add: written_def bytes_def)
  then show ?thesis using r(1) by blast
qed

subsection \<open>Windows of bits\<close>

lemma peek_bits: "peek s l p n = take_bit n (drop_bit (l - p - n) s)"
  by (simp add: peek_def take_bit_nat_def drop_bit_nat_def)

lemma peek_less: "peek s l p n < 2 ^ n"
  by (simp add: peek_def)

lemma peek_first:
  assumes "p + v \<le> l" "n \<le> v"
  shows "drop_bit (v - n) (peek s l p v) = peek s l p n"
proof -
  have "l - p - v + (v - n) = l - p - n" using assms by simp
  then show ?thesis using assms(2)
    by (simp add: peek_bits drop_bit_take_bit add.commute)
qed

lemma peek_rest:
  assumes "p + v \<le> l" "n \<le> v"
  shows "take_bit (v - n) (peek s l p v) = peek s l (p + n) (v - n)"
proof -
  have "l - (p + n) - (v - n) = l - p - v" using assms by simp
  then show ?thesis by (simp add: peek_bits min_def)
qed

lemma peek_join:
  assumes "p + a + b \<le> l"
  shows "peek s l p (a + b) = peek s l p a * 2 ^ b + peek s l (p + a) b"
proof -
  define x where "x = drop_bit (l - p - (a + b)) s"
  have 1: "peek s l p (a + b) = take_bit (a + b) x" by (simp add: peek_bits x_def)
  have "l - p - a = b + (l - p - (a + b))" using assms by simp
  then have 2: "peek s l p a = take_bit a (drop_bit b x)"
    by (simp add: peek_bits x_def)
  have "l - (p + a) - b = l - p - (a + b)" by simp
  then have 3: "peek s l (p + a) b = take_bit b x" by (simp add: peek_bits x_def)
  have "take_bit (a + b) x =
      push_bit b (drop_bit b (take_bit (a + b) x)) + take_bit b (take_bit (a + b) x)"
    by (simp only: bits_ident)
  also have "\<dots> = push_bit b (take_bit a (drop_bit b x)) + take_bit b x"
    by (simp add: drop_bit_take_bit min_def)
  finally show ?thesis unfolding 1 2 3 by (simp add: push_bit_nat_def)
qed

lemma sval_slice:
  assumes "j + k \<le> length bs"
  shows "sval (take k (drop j bs)) = peek (sval bs) (8 * length bs) (8 * j) (8 * k)"
proof -
  define A where "A = take j bs"
  define M where "M = take k (drop j bs)"
  define R where "R = drop (j + k) bs"
  have bs: "bs = A @ M @ R"
    unfolding A_def M_def R_def by (metis append_take_drop_id drop_drop add.commute)
  have lM: "length M = k" using assms by (simp add: M_def)
  have lR: "length R = length bs - j - k" by (simp add: R_def)
  have "sval bs = (sval A * 2 ^ (8 * k) + sval M) * 2 ^ (8 * length R) + sval R"
    by (subst bs) (simp add: sval_append lM algebra_simps power_add)
  then have "sval bs div 2 ^ (8 * length R) = sval A * 2 ^ (8 * k) + sval M"
    using sval_less [of R] by simp
  moreover have "sval M < 2 ^ (8 * k)" using sval_less [of M] lM by simp
  moreover have "8 * length bs - 8 * j - 8 * k = 8 * length R" using lR by simp
  ultimately show ?thesis by (simp add: peek_def M_def)
qed

subsection \<open>Loading the buffer\<close>

lemma unat_shifted_byte:
  fixes x :: "8 word"
  assumes "s \<le> 56"
  shows "unat (push_bit s (ucast x :: 64 word)) = unat x * 2 ^ s"
proof -
  have "unat x * 2 ^ s < 2 ^ 8 * 2 ^ s" using unat_byte_lt [of x] by simp
  also have "\<dots> = 2 ^ (8 + s)" by (simp add: power_add)
  also have "\<dots> \<le> 2 ^ 64" using assms by (intro power_increasing) simp_all
  finally have "unat x * 2 ^ s < 2 ^ 64" .
  moreover have "unat (push_bit s (ucast x :: 64 word)) =
      (unat (ucast x :: 64 word) * 2 ^ s) mod 2 ^ LENGTH(64)"
    by (rule unat_push_bit)
  ultimately show ?thesis by (simp add: unat_byte_up)
qed

lemma load_loop:
  assumes "j \<le> k" "k \<le> 8" "i + k \<le> length bs"
  shows "unat (foldl (\<lambda>buf n. buf OR push_bit (8 * (k - n - 1)) (ucast (bs ! (i + n)) :: 64 word))
                 0 [0..<j]) =
         sval (take j (drop i bs)) * 2 ^ (8 * (k - j))"
  using assms(1)
proof (induction j)
  case 0
  show ?case by simp
next
  case (Suc j)
  let ?f = "\<lambda>buf n. buf OR push_bit (8 * (k - n - 1)) (ucast (bs ! (i + n)) :: 64 word)"
  define acc where "acc = foldl ?f 0 [0..<j]"
  define x where "x = bs ! (i + j)"
  have acc: "unat acc = sval (take j (drop i bs)) * 2 ^ (8 * (k - j))"
    using Suc unfolding acc_def by simp
  have s: "8 * (k - j - 1) \<le> 56" using assms(2) Suc.prems by simp
  have ux: "unat (push_bit (8 * (k - j - 1)) (ucast x :: 64 word)) = unat x * 2 ^ (8 * (k - j - 1))"
    using s by (rule unat_shifted_byte)
  have e: "8 * (k - j) = 8 + 8 * (k - j - 1)" using Suc.prems by simp
  have d: "2 ^ (8 * (k - j)) dvd unat acc" unfolding acc by simp
  have lt: "unat (push_bit (8 * (k - j - 1)) (ucast x :: 64 word)) < 2 ^ (8 * (k - j))"
    unfolding ux e power_add using unat_byte_lt [of x] by simp
  have "foldl ?f 0 [0..<Suc j] = acc OR push_bit (8 * (k - j - 1)) (ucast x)"
    by (simp add: acc_def x_def)
  then have "unat (foldl ?f 0 [0..<Suc j]) =
      unat acc + unat (push_bit (8 * (k - j - 1)) (ucast x :: 64 word))"
    using unat_or_add [OF d lt] by simp
  also have "\<dots> = (sval (take j (drop i bs)) * 256 + unat x) * 2 ^ (8 * (k - j - 1))"
    unfolding acc ux e power_add by (simp add: algebra_simps)
  also have "sval (take j (drop i bs)) * 256 + unat x = sval (take (Suc j) (drop i bs))"
  proof -
    have "j < length (drop i bs)" using Suc.prems assms(3) by simp
    then have "take (Suc j) (drop i bs) = take j (drop i bs) @ [drop i bs ! j]"
      by (rule take_Suc_conv_app_nth)
    moreover have "drop i bs ! j = x" using Suc.prems assms(3) by (simp add: x_def)
    ultimately show ?thesis by (simp add: sval_snoc)
  qed
  finally show ?case by simp
qed

lemma load_slow:
  assumes "k \<le> 8" "i + k \<le> length bs"
  shows "unat (foldl (\<lambda>buf n. buf OR push_bit (8 * (k - n - 1)) (ucast (bs ! (i + n)) :: 64 word))
                 0 [0..<k]) =
         sval (take k (drop i bs))"
  using load_loop [OF order_refl assms] by simp

lemma upt_8: "[0..<8] = [0, 1, 2, 3, 4, 5, 6, 7 :: nat]"
  by (simp add: upt_rec)

lemma load_fast:
  assumes "8 \<le> length b"
  shows "unat (BigEndian_Uint64 b) = sval (take 8 b)"
proof -
  have "BigEndian_Uint64 b =
      foldl (\<lambda>buf n. buf OR push_bit (8 * (8 - n - 1)) (ucast (b ! (0 + n)) :: 64 word)) 0 [0..<8]"
    unfolding upt_8 BigEndian_Uint64_def by (simp add: ac_simps)
  then show ?thesis using load_slow [of 8 0 b] assms by simp
qed

lemma loadNextBuffer_reading:
  assumes "stream b = bs" "unat nbits = n" "n \<le> 64"
    and "8 * streamOffset b + n \<le> 8 * length bs" "streamOffset b < length bs"
  shows "\<exists>b'. loadNextBuffer b nbits = (True, b') \<and> reading b' bs (8 * streamOffset b) \<and>
              n \<le> unat (valid b')"
proof -
  define i where "i = streamOffset b"
  have il: "i < length bs" using assms(5) by (simp add: i_def)
  have "\<exists>b' k. loadNextBuffer b nbits = (True, b') \<and> stream b' = bs \<and>
      streamOffset b' = i + k \<and> i + k \<le> length bs \<and> k \<le> 8 \<and> n \<le> 8 * k \<and>
      valid b' = of_nat (8 * k) \<and> unat (buffer b') = sval (take k (drop i bs))"
  proof (cases "i + 8 < length bs")
    case True
    define b' where "b' = b\<lparr>buffer := BigEndian_Uint64 (drop i bs), streamOffset := i + 8, valid := 64\<rparr>"
    have "loadNextBuffer b nbits = (True, b')"
      using True il assms(1) by (simp add: loadNextBuffer_def b'_def i_def)
    moreover have "unat (buffer b') = sval (take 8 (drop i bs))"
      using True by (simp add: b'_def load_fast)
    ultimately show ?thesis using True assms(1,3) by (intro exI [of _ b'] exI [of _ 8]) (simp add: b'_def)
  next
    case False
    define k0 where "k0 = unat (nbits div 8 + 1)"
    define k where "k = (if i + k0 > length bs then length bs - i else k0)"
    have k0: "k0 = n div 8 + 1"
    proof -
      have "unat (nbits div 8) = n div 8" using assms(2) by (simp add: unat_div)
      moreover have "unat (nbits div 8) + unat (1 :: 8 word) < 2 ^ LENGTH(8)"
        using calculation assms(3) by simp
      ultimately show ?thesis unfolding k0_def
        using unat_add_lem [of "nbits div 8" 1] by simp
    qed
    have k8: "k \<le> 8" using False il assms(3) by (auto simp add: k_def k0)
    have ik: "i + k \<le> length bs" using il by (simp add: k_def)
    have nk: "n \<le> 8 * k" using assms(4) by (auto simp add: k_def k0 i_def)
    define buf where "buf = foldl (\<lambda>buf n. buf OR push_bit (8 * (k - n - 1))
        (ucast (bs ! (i + n)) :: 64 word)) 0 [0..<k]"
    define b' where "b' = b\<lparr>buffer := buf, streamOffset := i + k, valid := of_nat (k * 8)\<rparr>"
    have "loadNextBuffer b nbits = (True, b')"
      using False il assms(1)
      unfolding loadNextBuffer_def Let_def b'_def buf_def k_def k0_def i_def by simp
    moreover have "unat (buffer b') = sval (take k (drop i bs))"
      using load_slow [OF k8 ik] by (simp add: b'_def buf_def)
    ultimately show ?thesis using assms(1) k8 ik nk
      by (intro exI [of _ b'] exI [of _ k]) (simp add: b'_def mult.commute)
  qed
  then obtain b' k where r: "loadNextBuffer b nbits = (True, b')" "stream b' = bs"
    "streamOffset b' = i + k" "i + k \<le> length bs" "k \<le> 8" "n \<le> 8 * k"
    "valid b' = of_nat (8 * k)" "unat (buffer b') = sval (take k (drop i bs))"
    by blast
  have v: "unat (valid b') = 8 * k"
  proof -
    have "8 * k < 2 ^ LENGTH(8)" using r(5) by simp
    then have "(8 * k) mod 2 ^ LENGTH(8) = 8 * k" by (rule mod_less)
    moreover have "unat (of_nat (8 * k) :: 8 word) = (8 * k) mod 2 ^ LENGTH(8)"
      by (rule unat_of_nat)
    ultimately show ?thesis unfolding r(7) by (simp only:)
  qed
  have "take_bit (8 * k) (unat (buffer b')) = peek (sval bs) (8 * length bs) (8 * i) (8 * k)"
    unfolding r(8) sval_slice [OF r(4)] using peek_less [of "sval bs" "8 * length bs" "8 * i" "8 * k"]
    by (simp add: take_bit_nat_eq_self)
  then have "reading b' bs (8 * i)"
    using r(2,3,4,5) v by (simp add: reading_def)
  then show ?thesis using r(1,6) v by (auto simp add: i_def)
qed

subsection \<open>Reading\<close>

text \<open>The bits that \<open>readBitsFast\<close> returns, and the reader that it leaves.\<close>

lemma take_from_buffer:
  assumes "reading b bs p" "unat nbits = n" "n \<le> unat (valid b)"
  shows "unat (drop_bit (unat (valid b - nbits)) (buffer b) AND (push_bit (unat nbits) 1 - 1)) =
           peek (sval bs) (8 * length bs) p n"
    and "reading (b\<lparr>valid := valid b - nbits\<rparr>) bs (p + n)"
proof -
  define v where "v = unat (valid b)"
  define B where "B = unat (buffer b)"
  let ?S = "sval bs" and ?L = "8 * length bs"
  have nv: "n \<le> v" using assms(3) by (simp add: v_def)
  have le: "nbits \<le> valid b" using assms(2,3) by (simp add: word_le_nat_alt)
  then have sub: "unat (valid b - nbits) = v - n" using assms(2) by (simp add: unat_sub v_def)
  have inv: "take_bit v B = peek ?S ?L p v" and pv: "p + v \<le> ?L" and v64: "v \<le> 64"
    and st: "stream b = bs" "streamOffset b \<le> length bs" "p + v = 8 * streamOffset b"
    using assms(1) by (simp_all add: reading_def v_def B_def)
  have "unat (drop_bit (v - n) (buffer b) AND (push_bit n 1 - 1)) =
      take_bit n (drop_bit (v - n) B)"
    by (simp only: unat_and_bitmask unat_drop_bit_eq B_def)
  also have "\<dots> = drop_bit (v - n) (take_bit v B)"
    using nv by (simp add: drop_bit_take_bit)
  also have "\<dots> = peek ?S ?L p n" unfolding inv using pv nv by (rule peek_first)
  finally show "unat (drop_bit (unat (valid b - nbits)) (buffer b) AND
      (push_bit (unat nbits) 1 - 1)) = peek ?S ?L p n"
    unfolding sub assms(2) .
  have "take_bit (v - n) B = take_bit (v - n) (take_bit v B)" by (simp add: min_def)
  also have "\<dots> = peek ?S ?L (p + n) (v - n)" unfolding inv using pv nv by (rule peek_rest)
  finally have "take_bit (v - n) B = peek ?S ?L (p + n) (v - n)" .
  then show "reading (b\<lparr>valid := valid b - nbits\<rparr>) bs (p + n)"
    using st v64 nv sub by (simp add: reading_def B_def)
qed

lemma readBitsFast_reading:
  assumes "reading b bs p" "unat nbits = n" "n \<le> unat (valid b)"
  shows "\<exists>w b'. readBitsFast b nbits = (Inr w, b') \<and>
           unat w = peek (sval bs) (8 * length bs) p n \<and> reading b' bs (p + n)"
proof -
  have "\<not> valid b < nbits" using assms(2,3) by (simp add: word_less_nat_alt)
  then have "readBitsFast b nbits =
      (Inr (drop_bit (unat (valid b - nbits)) (buffer b) AND (push_bit (unat nbits) 1 - 1)),
       b\<lparr>valid := valid b - nbits\<rparr>)"
    by (simp add: readBitsFast_def Let_def)
  then show ?thesis using take_from_buffer [OF assms] by simp
qed

lemma readBits_reading:
  assumes "reading b bs p" "unat nbits = n" "1 \<le> n" "n \<le> 64"
    and "p + n \<le> 8 * length bs"
  shows "\<exists>w b'. readBits b nbits = (Inr w, b') \<and>
           unat w = peek (sval bs) (8 * length bs) p n \<and> reading b' bs (p + n)"
proof -
  let ?S = "sval bs" and ?L = "8 * length bs"
  have "\<exists>b1. (if valid b = 0 then loadNextBuffer b nbits else (True, b)) = (True, b1) \<and>
      reading b1 bs p \<and> (valid b = 0 \<longrightarrow> n \<le> unat (valid b1)) \<and>
      (valid b \<noteq> 0 \<longrightarrow> b1 = b)"
  proof (cases "valid b = 0")
    case True
    have st: "stream b = bs" "p = 8 * streamOffset b"
      using assms(1) True by (simp_all add: reading_def)
    have "8 * streamOffset b + n \<le> 8 * length bs" "streamOffset b < length bs"
      using assms(3,5) st by simp_all
    from loadNextBuffer_reading [OF st(1) assms(2,4) this]
    show ?thesis using True st(2) by auto
  next
    case False
    then show ?thesis using assms(1) by simp
  qed
  then obtain b1 where l1: "(if valid b = 0 then loadNextBuffer b nbits else (True, b)) = (True, b1)"
    and r1: "reading b1 bs p" by blast
  define v where "v = unat (valid b1)"
  show ?thesis
  proof (cases "n \<le> v")
    case True
    then have le: "nbits \<le> valid b1" using assms(2) by (simp add: word_le_nat_alt v_def)
    have "readBits b nbits = readBitsFast b1 nbits"
      using l1 le by (simp add: readBits_def)
    then show ?thesis using readBitsFast_reading [OF r1 assms(2)] True by (simp add: v_def)
  next
    case False
    then have vn: "v < n" by simp
    then have nle: "\<not> nbits \<le> valid b1" using assms(2) by (simp add: word_le_nat_alt v_def)
    define nbits' where "nbits' = nbits - valid b1"
    define n' where "n' = n - v"
    have un': "unat nbits' = n'"
    proof -
      have "valid b1 \<le> nbits" using vn assms(2) by (simp add: word_le_nat_alt v_def)
      then show ?thesis using assms(2) by (simp add: nbits'_def n'_def unat_sub v_def)
    qed
    have n'pos: "1 \<le> n'" "n' \<le> 64" "v + n' = n" using vn assms(4) by (simp_all add: n'_def)
    have inv1: "take_bit v (unat (buffer b1)) = peek ?S ?L p v"
      and st1: "stream b1 = bs" "p + v = 8 * streamOffset b1" "streamOffset b1 \<le> length bs"
      using r1 by (simp_all add: reading_def v_def)
    define hi where "hi = push_bit (unat nbits') (buffer b1 AND (push_bit (unat (valid b1)) 1 - 1))"
    have uhi: "unat hi = peek ?S ?L p v * 2 ^ n'"
    proof -
      have "peek ?S ?L p v * 2 ^ n' < 2 ^ v * 2 ^ n'"
        using peek_less [of ?S ?L p v] by simp
      also have "\<dots> = 2 ^ n" using n'pos(3) by (simp flip: power_add)
      also have "\<dots> \<le> 2 ^ 64" using assms(4) by (intro power_increasing) simp_all
      finally have lt: "peek ?S ?L p v * 2 ^ n' < 2 ^ 64" .
      have "unat hi = (unat (buffer b1 AND (push_bit (unat (valid b1)) 1 - 1)) * 2 ^ n')
          mod 2 ^ LENGTH(64)"
        unfolding hi_def un' by (rule unat_push_bit)
      also have "unat (buffer b1 AND (push_bit (unat (valid b1)) 1 - 1)) = peek ?S ?L p v"
        by (simp only: unat_and_bitmask inv1 [unfolded v_def])  (simp add: v_def)
      finally show ?thesis using lt by simp
    qed
    define b1z where "b1z = b1\<lparr>valid := 0\<rparr>"
    have z: "stream b1z = bs" "streamOffset b1z = streamOffset b1"
      using st1 by (simp_all add: b1z_def)
    have "8 * streamOffset b1z + n' \<le> 8 * length bs" "streamOffset b1z < length bs"
      using assms(5) st1(2) n'pos z(2) by simp_all
    from loadNextBuffer_reading [OF z(1) un' n'pos(2) this]
    obtain b2 where l2: "loadNextBuffer b1z nbits' = (True, b2)"
      and r2: "reading b2 bs (8 * streamOffset b1z)" and n2: "n' \<le> unat (valid b2)"
      by blast
    have r2': "reading b2 bs (p + v)" using r2 z(2) st1(2) by simp
    define lo where "lo = drop_bit (unat (valid b2 - nbits')) (buffer b2) AND
        (push_bit (unat nbits') 1 - 1)"
    have ulo: "unat lo = peek ?S ?L (p + v) n'"
      and r3: "reading (b2\<lparr>valid := valid b2 - nbits'\<rparr>) bs (p + v + n')"
      using take_from_buffer [OF r2' un' n2] by (simp_all add: lo_def)
    have "2 ^ n' dvd unat hi" unfolding uhi by simp
    moreover have "unat lo < 2 ^ n'" unfolding ulo by (rule peek_less)
    ultimately have "unat (hi OR lo) = unat hi + unat lo" by (rule unat_or_add)
    also have "\<dots> = peek ?S ?L p (v + n')"
      unfolding uhi ulo using assms(5) n'pos(3) by (subst peek_join) simp_all
    finally have w: "unat (hi OR lo) = peek ?S ?L p n" using n'pos(3) by simp
    have "readBits b nbits = (Inr (hi OR lo), b2\<lparr>valid := valid b2 - nbits'\<rparr>)"
      using l1 nle l2
      unfolding readBits_def Let_def hi_def lo_def nbits'_def b1z_def by simp
    then show ?thesis using w r3 n'pos(3) by (simp add: add.assoc)
  qed
qed

lemma readSeq_encodes:
  assumes "reading b bs p" "encodes (sval bs) (8 * length bs) p ws"
    and "\<forall>(u, n) \<in> set ws. 1 \<le> n \<and> n \<le> 64"
  shows "readSeq b (map snd ws) = Inr (map fst ws)"
  using assms
proof (induction ws arbitrary: b p)
  case Nil
  show ?case by simp
next
  case (Cons a ws)
  obtain u n where a: "a = (u, n)" by (cases a)
  have n: "1 \<le> n" "n \<le> 64" using Cons.prems(3) by (simp_all add: a)
  have e: "p + n \<le> 8 * length bs" "peek (sval bs) (8 * length bs) p n = unat u"
    "encodes (sval bs) (8 * length bs) (p + n) ws"
    using Cons.prems(2) by (simp_all add: a)
  have un: "unat (of_nat n :: 8 word) = n"
  proof -
    have "n < 2 ^ LENGTH(8)" using n(2) by simp
    then have "n mod 2 ^ LENGTH(8) = n" by (rule mod_less)
    moreover have "unat (of_nat n :: 8 word) = n mod 2 ^ LENGTH(8)" by (rule unat_of_nat)
    ultimately show ?thesis by (simp only:)
  qed
  from readBits_reading [OF Cons.prems(1) un n e(1)]
  obtain w b' where r: "readBits b (of_nat n) = (Inr w, b')"
    "unat w = peek (sval bs) (8 * length bs) p n" "reading b' bs (p + n)"
    by blast
  have "unat w = unat u" using r(2) e(2) by simp
  then have w: "w = u" by (simp add: word_unat_eq_iff)
  have "\<forall>(u, n) \<in> set ws. 1 \<le> n \<and> n \<le> 64" using Cons.prems(3) by simp
  from Cons.IH [OF r(3) e(3) this] have "readSeq b' (map snd ws) = Inr (map fst ws)" .
  then show ?case using r(1) w by (simp add: a)
qed

lemma reading_new: "reading (newBReader bs) bs 0"
  by (simp add: reading_def newBReader_def peek_def)

text \<open>
  Claim C4 (bit-stream round trip).  For every sequence of values and widths, each width
  between 1 and 64 and each value below \<open>2\<close> to the power of its width, the calls of
  \<open>writeBits\<close> on a fresh stream all return, and reading the widths in order with \<open>readBits\<close>
  from a new reader over the bytes of the stream gives exactly the values, with no error.
\<close>

theorem bstream_round_trip:
  assumes "\<forall>(u, n) \<in> set ws. 1 \<le> n \<and> n \<le> 64 \<and> unat u < 2 ^ n"
  shows "\<exists>b. writeSeq emptyBStream ws = Some b \<and>
             readSeq (newBReader (bytes b)) (map snd ws) = Inr (map fst ws)"
proof -
  have w: "\<forall>(u, n) \<in> set ws. n \<le> 64 \<and> unat u < 2 ^ n" using assms by auto
  have r: "\<forall>(u, n) \<in> set ws. 1 \<le> n \<and> n \<le> 64" using assms by auto
  from writeSeq_encodes [OF w] obtain b where
    b: "writeSeq emptyBStream ws = Some b"
      "encodes (sval (bytes b)) (8 * length (bytes b)) 0 ws"
    by blast
  have "readSeq (newBReader (bytes b)) (map snd ws) = Inr (map fst ws)"
    using reading_new b(2) r by (rule readSeq_encodes)
  then show ?thesis using b(1) by blast
qed

theorem bstream_round_trip_witness:
  "writeSeq emptyBStream [(5, 3), (1000, 12), (0xFFFFFFFFFFFFFFFF, 64), (1, 1)] =
     Some \<lparr>bstream.stream = [0xA7, 0xD1, 0xFF, 0xFF, 0xFF, 0xFF, 0xFF, 0xFF, 0xFF, 0xFF],
           count = 0\<rparr> \<and>
   readSeq (newBReader [0xA7, 0xD1, 0xFF, 0xFF, 0xFF, 0xFF, 0xFF, 0xFF, 0xFF, 0xFF])
     [3, 12, 64, 1] = Inr [5, 1000, 0xFFFFFFFFFFFFFFFF, 1]"
proof -
  have e: "writeSeq emptyBStream [(5, 3), (1000, 12), (0xFFFFFFFFFFFFFFFF, 64), (1, 1)] =
     Some \<lparr>bstream.stream = [0xA7, 0xD1, 0xFF, 0xFF, 0xFF, 0xFF, 0xFF, 0xFF, 0xFF, 0xFF],
           count = 0\<rparr>"
    by code_simp
  have "\<forall>(u, n) \<in> set [(5 :: 64 word, 3 :: nat), (1000, 12), (0xFFFFFFFFFFFFFFFF, 64), (1, 1)].
      1 \<le> n \<and> n \<le> 64 \<and> unat u < 2 ^ n"
    by simp
  then obtain b where
    b: "writeSeq emptyBStream [(5, 3), (1000, 12), (0xFFFFFFFFFFFFFFFF, 64), (1, 1)] = Some b"
      "readSeq (newBReader (bytes b))
         (map snd [(5 :: 64 word, 3 :: nat), (1000, 12), (0xFFFFFFFFFFFFFFFF, 64), (1, 1)]) =
       Inr (map fst [(5 :: 64 word, 3 :: nat), (1000, 12), (0xFFFFFFFFFFFFFFFF, 64), (1, 1)])"
    using bstream_round_trip [of "[(5, 3), (1000, 12), (0xFFFFFFFFFFFFFFFF, 64), (1, 1)]"]
    by blast
  from b(1) e have "bytes b = [0xA7, 0xD1, 0xFF, 0xFF, 0xFF, 0xFF, 0xFF, 0xFF, 0xFF, 0xFF]"
    by (simp add: bytes_def)
  with b(2) e show ?thesis by simp
qed


end
